theory Spec2Isabelle
  imports Main "HOL-Library.Word" "HOL-Library.Char_ord" "HOL-Library.List_Lexorder"
    "HOL-Library.AList"
begin

unbundle bit_operations_syntax

section \<open>Library functions the package calls\<close>

text \<open>
  The Go standard library is not part of the package. The functions below follow the
  documented behaviour of \<^verbatim>\<open>strings\<close>, \<^verbatim>\<open>path\<close>, \<^verbatim>\<open>path/filepath\<close> (Unix separator) and the
  \<^verbatim>\<open>%x\<close> and \<^verbatim>\<open>%d\<close> verbs of \<^verbatim>\<open>fmt\<close> on unsigned integers. A Go string is a byte sequence,
  here a \<^typ>\<open>char list\<close>.
\<close>

type_synonym byte = "8 word"

definition strings_HasPrefix :: "string \<Rightarrow> string \<Rightarrow> bool" where
  "strings_HasPrefix s prefix = (take (length prefix) s = prefix)"

definition strings_HasSuffix :: "string \<Rightarrow> string \<Rightarrow> bool" where
  "strings_HasSuffix s suffix =
     (length suffix \<le> length s \<and> drop (length s - length suffix) s = suffix)"

fun strings_Contains :: "string \<Rightarrow> string \<Rightarrow> bool" where
  "strings_Contains [] substr = (substr = [])"
| "strings_Contains (c # s) substr =
     (strings_HasPrefix (c # s) substr \<or> strings_Contains s substr)"

definition strings_TrimLeft :: "string \<Rightarrow> string \<Rightarrow> string" where
  "strings_TrimLeft s cutset = dropWhile (\<lambda>c. c \<in> set cutset) s"

definition strings_TrimRight :: "string \<Rightarrow> string \<Rightarrow> string" where
  "strings_TrimRight s cutset = rev (dropWhile (\<lambda>c. c \<in> set cutset) (rev s))"

fun split_slash :: "string \<Rightarrow> string list" where
  "split_slash [] = [[]]"
| "split_slash (c # s) =
     (if c = CHR ''/'' then [] # split_slash s
      else (case split_slash s of [] \<Rightarrow> [[c]] | e # es \<Rightarrow> (c # e) # es))"

fun join_slash :: "string list \<Rightarrow> string" where
  "join_slash [] = []"
| "join_slash [e] = e"
| "join_slash (e # es) = e @ ''/'' @ join_slash es"

text \<open>
  \<^verbatim>\<open>path.Clean\<close>: empty and \<^verbatim>\<open>.\<close> elements vanish, \<^verbatim>\<open>..\<close> removes the element before it,
  is dropped at the root and is kept at the start of a relative path. The elements kept
  so far are held as a stack, the last element first.
\<close>

definition clean_element :: "bool \<Rightarrow> string list \<Rightarrow> string \<Rightarrow> string list" where
  "clean_element rooted stack e =
     (if e = [] \<or> e = ''.'' then stack
      else if e = ''..'' then
        (case stack of
           [] \<Rightarrow> if rooted then [] else [''..'']
         | t # ts \<Rightarrow> if t = ''..'' then ''..'' # stack else ts)
      else e # stack)"

definition path_Clean :: "string \<Rightarrow> string" where
  "path_Clean p =
     (if p = [] then ''.''
      else
        let rooted = (hd p = CHR ''/'');
            stack = foldl (clean_element rooted) [] (split_slash p);
            out = (if rooted then ''/'' else []) @ join_slash (rev stack)
        in if out = [] then ''.'' else out)"

definition path_Dir :: "string \<Rightarrow> string" where
  "path_Dir p = path_Clean (rev (dropWhile (\<lambda>c. c \<noteq> CHR ''/'') (rev p)))"

definition path_Base :: "string \<Rightarrow> string" where
  "path_Base p =
     (if p = [] then ''.''
      else
        let stripped = strings_TrimRight p ''/'';
            last_element = rev (takeWhile (\<lambda>c. c \<noteq> CHR ''/'') (rev stripped))
        in if last_element = [] then ''/'' else last_element)"

definition filepath_Ext :: "string \<Rightarrow> string" where
  "filepath_Ext p =
     (let last_element = rev (takeWhile (\<lambda>c. c \<noteq> CHR ''/'') (rev p))
      in if CHR ''.'' \<in> set last_element
         then CHR ''.'' # rev (takeWhile (\<lambda>c. c \<noteq> CHR ''.'') (rev last_element))
         else [])"

definition hexchar :: "nat \<Rightarrow> char" where
  "hexchar d = ''0123456789abcdef'' ! (d mod 16)"

fun fmt_x :: "nat \<Rightarrow> string" where
  "fmt_x n = (if n < 16 then [hexchar n] else fmt_x (n div 16) @ [hexchar (n mod 16)])"

fun fmt_d :: "nat \<Rightarrow> string" where
  "fmt_d n = (if n < 10 then [hexchar n] else fmt_d (n div 10) @ [hexchar (n mod 10)])"

declare fmt_x.simps [simp del] fmt_d.simps [simp del]

text \<open>Conversion to \<^verbatim>\<open>int64\<close> and \<^verbatim>\<open>int64\<close> arithmetic wrap around.\<close>

definition int64 :: "int \<Rightarrow> int" where
  "int64 x = (x + 2 ^ 63) mod 2 ^ 64 - 2 ^ 63"

section \<open>Errors\<close>

text \<open>
  The package's own error values, \<^verbatim>\<open>io.EOF\<close>, \<^verbatim>\<open>os.ErrNotExist\<close> and \<^verbatim>\<open>os.PathError\<close>.
  \<open>NilDereference\<close> stands for the run-time panic of a method call through a nil \<^verbatim>\<open>*zip.File\<close>.
\<close>

datatype error =
    errNotImplemented | errFileClosed | errNotDirectory | errDirectory
  | EOF | ErrNotExist | ErrClosed | ErrInvalid | ErrReadAfterClose
  | NilDereference
  | IOError string
  | PathError string string error

section \<open>Archive entries\<close>

text \<open>
  \<^verbatim>\<open>zip.File\<close> belongs to archive/zip. The record keeps what the package reads from it:
  header fields, \<^verbatim>\<open>Mode().IsDir()\<close>, \<^verbatim>\<open>ModTime()\<close> in Unix seconds, the outcome of \<^verbatim>\<open>Open()\<close>
  (an error, or the bytes that the decompressing stream yields) and of \<^verbatim>\<open>DataOffset()\<close>.
\<close>

record zip_File =
  Name :: string
  CRC32 :: "32 word"
  CompressedSize64 :: "64 word"
  UncompressedSize64 :: "64 word"
  UncompressedSize :: "32 word"
  Method :: "16 word"
  ModeIsDir :: bool
  ModTime :: int
  Opened :: "error + byte list"
  DataOffset :: "error + int"

definition zip_Store :: "16 word" where "zip_Store = 0"
definition zip_Deflate :: "16 word" where "zip_Deflate = 8"

text \<open>
  The \<^verbatim>\<open>io.ReadCloser\<close> that \<^verbatim>\<open>zip.File.Open\<close> returns. A read hands out at most the buffer's
  length and reports \<^verbatim>\<open>io.EOF\<close> once the data is used up. After \<^verbatim>\<open>Close\<close> a deflate stream
  refuses to read; a stored one is a no-op closer.
\<close>

record stream =
  sdata :: "byte list"
  spos :: nat
  sclosed :: bool
  smethod :: "16 word"

definition zip_Open :: "zip_File \<Rightarrow> error + stream" where
  "zip_Open f =
     (case Opened f of
        Inl e \<Rightarrow> Inl e
      | Inr d \<Rightarrow> Inr \<lparr>sdata = d, spos = 0, sclosed = False, smethod = Method f\<rparr>)"

definition read_at :: "byte list \<Rightarrow> nat \<Rightarrow> nat \<Rightarrow> (byte list \<times> error option) \<times> nat" where
  "read_at d pos n =
     (if n = 0 then (([], None), pos)
      else if length d \<le> pos then (([], Some EOF), pos)
      else ((take n (drop pos d), None), pos + length (take n (drop pos d))))"

definition stream_Read :: "stream \<Rightarrow> nat \<Rightarrow> (byte list \<times> error option) \<times> stream" where
  "stream_Read s n =
     (if sclosed s \<and> smethod s = zip_Deflate then (([], Some ErrReadAfterClose), s)
      else let (res, pos) = read_at (sdata s) (spos s) n in (res, s\<lparr>spos := pos\<rparr>))"

definition stream_Close :: "stream \<Rightarrow> error option \<times> stream" where
  "stream_Close s = (None, s\<lparr>sclosed := True\<rparr>)"

section \<open>calcEtag\<close>

text \<open>
  \<^verbatim>\<open>etag := uint64(f.CRC32) ^ (uint64(f.CompressedSize64&0xffffffff) << 32)
  return fmt.Sprintf(`"%x"`, etag)\<close>
\<close>

definition calcEtag :: "zip_File \<Rightarrow> string" where
  "calcEtag f =
     (let etag = (ucast (CRC32 f) :: 64 word)
                   XOR push_bit 32 (CompressedSize64 f AND 0xffffffff)
      in [CHR 0x22] @ fmt_x (unat etag) @ [CHR 0x22])"

text \<open>
  The value the interface description asks for, on natural numbers, and the reading of
  a string of lowercase hexadecimal digits.
\<close>

definition etag_value :: "nat \<Rightarrow> nat \<Rightarrow> nat" where
  "etag_value crc csize = crc XOR push_bit 32 (take_bit 32 csize)"

definition hexdigit_val :: "char \<Rightarrow> nat" where
  "hexdigit_val c = (if of_char c < (58::nat) then of_char c - 48 else of_char c - 87)"

definition hexval :: "string \<Rightarrow> nat" where
  "hexval ds = foldl (\<lambda>a c. 16 * a + hexdigit_val c) 0 ds"

section \<open>The directory index\<close>

text \<open>
  \<^verbatim>\<open>fileInfo\<close> values are shared through pointers: the map holds two keys for one
  directory and a parent's child list points at the same nodes. The nodes live in a
  heap, a list indexed by address; a \<^verbatim>\<open>*fileInfo\<close> is an index into it. The unused \<^verbatim>\<open>fs\<close>
  field and the mutex are left out.
\<close>

record fileInfo =
  fi_name :: string
  fi_zipFile :: "zip_File option"
  fi_fileInfos :: "nat list"
  fi_tempPath :: string

type_synonym fileInfoMap = "(string \<times> nat) list"

text \<open>\<^verbatim>\<open>fileInfoMap.FindOrCreate\<close>\<close>

definition FindOrCreate ::
  "fileInfo list \<times> fileInfoMap \<Rightarrow> string \<Rightarrow> nat \<times> fileInfo list \<times> fileInfoMap" where
  "FindOrCreate st name =
     (let (hp, fm) = st;
          strippedName = strings_TrimRight name ''/''
      in case map_of fm name of
           Some fi \<Rightarrow> (fi, hp, fm)
         | None \<Rightarrow>
             let fi = length hp;
                 hp1 = hp @ [\<lparr>fi_name = name, fi_zipFile = None, fi_fileInfos = [],
                              fi_tempPath = []\<rparr>];
                 fm1 = AList.update name fi fm;
                 fm2 = (if strippedName \<noteq> name then AList.update strippedName fi fm1
                        else fm1)
             in (fi, hp1, fm2))"

text \<open>\<^verbatim>\<open>fileInfoMap.FindOrCreateParent\<close>\<close>

definition parentDirName :: "string \<Rightarrow> string" where
  "parentDirName name =
     (let strippedName = strings_TrimRight name ''/'';
          dirName = path_Dir strippedName
      in if dirName = ''.'' then ''/''
         else if \<not> strings_HasSuffix dirName ''/'' then dirName @ ''/''
         else dirName)"

definition FindOrCreateParent ::
  "fileInfo list \<times> fileInfoMap \<Rightarrow> string \<Rightarrow> nat \<times> fileInfo list \<times> fileInfoMap" where
  "FindOrCreateParent st name = FindOrCreate st (parentDirName name)"

text \<open>The methods of \<^verbatim>\<open>fileInfo\<close> that implement \<^verbatim>\<open>os.FileInfo\<close>.\<close>

definition fileInfo_Name :: "fileInfo \<Rightarrow> string" where
  "fileInfo_Name fi = path_Base (fi_name fi)"

definition fileInfo_Size :: "fileInfo \<Rightarrow> int" where
  "fileInfo_Size fi =
     (case fi_zipFile fi of
        None \<Rightarrow> 0
      | Some zf \<Rightarrow>
          if UncompressedSize64 zf = 0 then int64 (uint (UncompressedSize zf))
          else int64 (uint (UncompressedSize64 zf)))"

definition fileInfo_IsDir :: "fileInfo \<Rightarrow> bool" where
  "fileInfo_IsDir fi = (case fi_zipFile fi of None \<Rightarrow> True | Some zf \<Rightarrow> ModeIsDir zf)"

definition os_ModeDir :: "32 word" where
  "os_ModeDir = push_bit 31 1"

definition fileInfo_Mode :: "fileInfo \<Rightarrow> 32 word" where
  "fileInfo_Mode fi =
     (if fi_zipFile fi = None \<or> fileInfo_IsDir fi then 365 OR os_ModeDir else 292)"

definition FileMode_IsDir :: "32 word \<Rightarrow> bool" where
  "FileMode_IsDir m = (m AND os_ModeDir \<noteq> 0)"

definition dirTime :: int where
  "dirTime = 978307200"

definition fileInfo_ModTime :: "fileInfo \<Rightarrow> int" where
  "fileInfo_ModTime fi = (case fi_zipFile fi of None \<Rightarrow> dirTime | Some zf \<Rightarrow> ModTime zf)"

text \<open>
  \<^verbatim>\<open>fileInfoList.Less\<close> compares the base names with \<^verbatim>\<open>strings.Compare\<close>, the byte-wise
  lexicographic order, which is the order of \<^typ>\<open>string\<close> here. \<^verbatim>\<open>sort.Sort\<close> returns a
  sorted permutation and promises no order among equal names; it is modelled by insertion
  sort on that key, and only sortedness is drawn from it.
\<close>

definition sort_Sort :: "fileInfo list \<Rightarrow> nat list \<Rightarrow> nat list" where
  "sort_Sort hp fl = sort_key (\<lambda>i. fileInfo_Name (hp ! i)) fl"

section \<open>FileSystem\<close>

type_synonym readerAt = "int \<Rightarrow> nat \<Rightarrow> error + byte list"

text \<open>
  \<^verbatim>\<open>os.File.ReadAt\<close> on a file holding \<open>d\<close>: a read that cannot fill the buffer is an error.
\<close>

definition file_ReadAt :: "byte list \<Rightarrow> readerAt" where
  "file_ReadAt d off n =
     (if off < 0 then Inl ErrInvalid
      else if int (length d) < off + int n then Inl EOF
      else Inr (take n (drop (nat off) d)))"

record FileSystem =
  fs_readerAt :: "readerAt option"
  fs_reader :: "zip_File list option"
  fs_closer :: "error option option"
  fs_fileInfos :: fileInfoMap

text \<open>
  The parsed archive that \<^verbatim>\<open>os.Open\<close>, \<^verbatim>\<open>Stat\<close> and \<^verbatim>\<open>zip.NewReader\<close> deliver to \<^verbatim>\<open>New\<close>: the
  bytes of the file, the entries in central-directory order, and what closing the file
  will return.
\<close>

record archive =
  ar_bytes :: "byte list"
  ar_File :: "zip_File list"
  ar_closeErr :: "error option"

text \<open>One round of the first loop of \<^verbatim>\<open>New\<close>.\<close>

definition New_entry ::
  "fileInfo list \<times> fileInfoMap \<Rightarrow> zip_File \<Rightarrow> fileInfo list \<times> fileInfoMap" where
  "New_entry st zf =
     (let (fi, hp1, fm1) = FindOrCreate st (Name zf);
          hp2 = hp1[fi := (hp1 ! fi)\<lparr>fi_zipFile := Some zf\<rparr>];
          (dirEntry, hp3, fm3) = FindOrCreateParent (hp2, fm1) (Name zf);
          hp4 = hp3[dirEntry := (hp3 ! dirEntry)
                   \<lparr>fi_fileInfos := fi_fileInfos (hp3 ! dirEntry) @ [fi]\<rparr>]
      in (hp4, fm3))"

text \<open>One round of the second loop: the children of the node at \<open>fi\<close> are sorted in place.\<close>

definition New_sort :: "fileInfo list \<Rightarrow> nat \<Rightarrow> fileInfo list" where
  "New_sort hp fi =
     (if length (fi_fileInfos (hp ! fi)) > 1
      then hp[fi := (hp ! fi)\<lparr>fi_fileInfos := sort_Sort hp (fi_fileInfos (hp ! fi))\<rparr>]
      else hp)"

definition New :: "error + archive \<Rightarrow> error + FileSystem \<times> fileInfo list" where
  "New opened =
     (case opened of
        Inl err \<Rightarrow> Inl err
      | Inr ar \<Rightarrow>
          let (hp, fm) = foldl New_entry ([], []) (ar_File ar);
              hp1 = foldl New_sort hp (map snd fm)
          in Inr (\<lparr>fs_readerAt = Some (file_ReadAt (ar_bytes ar)),
                   fs_reader = Some (ar_File ar),
                   fs_closer = Some (ar_closeErr ar),
                   fs_fileInfos = fm\<rparr>, hp1))"

text \<open>\<^verbatim>\<open>FileSystem.Close\<close>\<close>

definition Close :: "FileSystem \<Rightarrow> error option \<times> FileSystem" where
  "Close fs =
     (let fs1 = fs\<lparr>fs_reader := None\<rparr>;
          fs2 = fs1\<lparr>fs_readerAt := None\<rparr>
      in case fs_closer fs2 of
           Some r \<Rightarrow> (r, fs2\<lparr>fs_closer := None\<rparr>)
         | None \<Rightarrow> (None, fs2))"

section \<open>Open files\<close>

record osFile =
  fpath :: string
  fpos :: nat
  fclosed :: bool

record fileReader =
  fr_name :: string
  fr_fileInfo :: nat
  fr_reader :: "stream option"
  fr_file :: "osFile option"
  fr_closed :: bool
  fr_readdir :: "nat list option"

text \<open>
  What lies outside the process: the nodes of the index (shared by all handles), the
  temporary files by path, the counter behind \<^verbatim>\<open>ioutil.TempFile\<close>, and the failures that
  the operating system may answer with when a temporary file is created, written or
  rewound.
\<close>

record world =
  heap :: "fileInfo list"
  files :: "string \<rightharpoonup> byte list"
  tempSeq :: nat
  tempFileErr :: "error option"
  copyErr :: "error option"
  seekErr :: "error option"

definition openReader :: "nat \<Rightarrow> string \<Rightarrow> fileReader" where
  "openReader fi name =
     \<lparr>fr_name = name, fr_fileInfo = fi, fr_reader = None, fr_file = None,
      fr_closed = False, fr_readdir = None\<rparr>"

text \<open>\<^verbatim>\<open>FileSystem.Open\<close>\<close>

definition Open :: "FileSystem \<Rightarrow> string \<Rightarrow> error + fileReader" where
  "Open fs name0 =
     (let name = path_Clean name0;
          trimmedName = strings_TrimLeft name ''/''
      in case map_of (fs_fileInfos fs) trimmedName of
           None \<Rightarrow> Inl (PathError ''Open'' name ErrNotExist)
         | Some fi \<Rightarrow> Inr (openReader fi name))"

definition pathError :: "fileReader \<Rightarrow> string \<Rightarrow> error \<Rightarrow> error" where
  "pathError f op err = PathError op (fr_name f) err"

text \<open>Temporary files: \<^verbatim>\<open>ioutil.TempFile("", "zipfs")\<close>, \<^verbatim>\<open>os.Open\<close> and the methods of \<^verbatim>\<open>os.File\<close>.\<close>

definition tempName :: "nat \<Rightarrow> string" where
  "tempName n = ''/tmp/zipfs'' @ fmt_d n"

definition os_Open :: "world \<Rightarrow> string \<Rightarrow> error + osFile" where
  "os_Open w p =
     (case files w p of
        None \<Rightarrow> Inl ErrNotExist
      | Some d \<Rightarrow> Inr \<lparr>fpath = p, fpos = 0, fclosed = False\<rparr>)"

definition file_Read :: "world \<Rightarrow> osFile \<Rightarrow> nat \<Rightarrow> (byte list \<times> error option) \<times> osFile" where
  "file_Read w fl n =
     (if fclosed fl then (([], Some ErrClosed), fl)
      else case files w (fpath fl) of
             None \<Rightarrow> (([], Some ErrNotExist), fl)
           | Some d \<Rightarrow> let (res, pos) = read_at d (fpos fl) n in (res, fl\<lparr>fpos := pos\<rparr>))"

definition file_Seek :: "world \<Rightarrow> osFile \<Rightarrow> int \<Rightarrow> int \<Rightarrow> (int \<times> error option) \<times> osFile" where
  "file_Seek w fl offset whence =
     (if fclosed fl then ((0, Some ErrClosed), fl)
      else case files w (fpath fl) of
             None \<Rightarrow> ((0, Some ErrNotExist), fl)
           | Some d \<Rightarrow>
               if whence \<noteq> 0 \<and> whence \<noteq> 1 \<and> whence \<noteq> 2 then ((0, Some ErrInvalid), fl)
               else
                 let base = (if whence = 0 then 0
                             else if whence = 1 then int (fpos fl) else int (length d));
                     target = base + offset
                 in if target < 0 then ((0, Some ErrInvalid), fl)
                    else ((target, None), fl\<lparr>fpos := nat target\<rparr>))"

definition file_Close :: "osFile \<Rightarrow> error option \<times> osFile" where
  "file_Close fl =
     (if fclosed fl then (Some ErrClosed, fl) else (None, fl\<lparr>fclosed := True\<rparr>))"

text \<open>\<^verbatim>\<open>createTempFile\<close>\<close>

definition createTempFile :: "world \<Rightarrow> zip_File option \<Rightarrow> (error + osFile) \<times> world" where
  "createTempFile w fo =
     (case fo of
        None \<Rightarrow> (Inl NilDereference, w)
      | Some f \<Rightarrow>
          (case zip_Open f of
             Inl err \<Rightarrow> (Inl err, w)
           | Inr reader \<Rightarrow>
               (case tempFileErr w of
                  Some err \<Rightarrow> (Inl err, w)
                | None \<Rightarrow>
                    let p = tempName (tempSeq w);
                        w1 = w\<lparr>files := (files w)(p \<mapsto> []), tempSeq := Suc (tempSeq w)\<rparr>
                    in case copyErr w1 of
                         Some err \<Rightarrow> (Inl err, w1\<lparr>files := (files w1)(p := None)\<rparr>)
                       | None \<Rightarrow>
                           let w2 = w1\<lparr>files := (files w1)(p \<mapsto> drop (spos reader) (sdata reader))\<rparr>
                           in case seekErr w2 of
                                Some err \<Rightarrow> (Inl err, w2\<lparr>files := (files w2)(p := None)\<rparr>)
                              | None \<Rightarrow> (Inr \<lparr>fpath = p, fpos = 0, fclosed = False\<rparr>, w2))))"

text \<open>\<^verbatim>\<open>fileInfo.openFile\<close>\<close>

definition openFile :: "world \<Rightarrow> nat \<Rightarrow> (error + osFile) \<times> world" where
  "openFile w fi =
     (if fi_tempPath (heap w ! fi) = [] then
        (case createTempFile w (fi_zipFile (heap w ! fi)) of
           (Inl err, w1) \<Rightarrow> (Inl err, w1)
         | (Inr tempFile, w1) \<Rightarrow>
             (Inr tempFile,
              w1\<lparr>heap := (heap w1)[fi := (heap w1 ! fi)\<lparr>fi_tempPath := fpath tempFile\<rparr>]\<rparr>))
      else (os_Open w (fi_tempPath (heap w ! fi)), w))"

text \<open>\<^verbatim>\<open>fileInfo.readdir\<close>\<close>

definition fileInfo_readdir :: "fileInfo \<Rightarrow> error + nat list" where
  "fileInfo_readdir fi =
     (if \<not> FileMode_IsDir (fileInfo_Mode fi) then Inl errNotDirectory
      else Inr (fi_fileInfos fi))"

text \<open>\<^verbatim>\<open>fileReader.Close\<close>\<close>

definition fileReader_Close :: "fileReader \<Rightarrow> error option \<times> fileReader" where
  "fileReader_Close f =
     (let (err1, r1) = (case fr_reader f of
                          Some r \<Rightarrow> (let (e, r') = stream_Close r in (e, Some r'))
                        | None \<Rightarrow> (None, None));
          (err2, fl1) = (case fr_file f of
                           Some fl \<Rightarrow> (let (e, fl') = file_Close fl in (e, Some fl'))
                         | None \<Rightarrow> (None, None));
          f1 = f\<lparr>fr_reader := r1, fr_file := fl1, fr_closed := True\<rparr>
      in case err1 of
           Some e \<Rightarrow> (Some (pathError f1 ''Close'' e), f1)
         | None \<Rightarrow>
             (case err2 of
                Some e \<Rightarrow> (Some (pathError f1 ''Close'' e), f1)
              | None \<Rightarrow> (None, f1)))"

text \<open>\<^verbatim>\<open>fileReader.Read\<close>, for a buffer of length \<open>n\<close>\<close>

definition Read :: "world \<Rightarrow> fileReader \<Rightarrow> nat \<Rightarrow> (byte list \<times> error option) \<times> fileReader" where
  "Read w f n =
     (if fr_closed f then (([], Some (pathError f ''Read'' errFileClosed)), f)
      else case fr_file f of
             Some fl \<Rightarrow> (let (res, fl1) = file_Read w fl n in (res, f\<lparr>fr_file := Some fl1\<rparr>))
           | None \<Rightarrow>
               (case fr_reader f of
                  Some r \<Rightarrow>
                    (let (res, r1) = stream_Read r n in (res, f\<lparr>fr_reader := Some r1\<rparr>))
                | None \<Rightarrow>
                    (case fi_zipFile (heap w ! fr_fileInfo f) of
                       None \<Rightarrow> (([], Some NilDereference), f)
                     | Some zf \<Rightarrow>
                         (case zip_Open zf of
                            Inl err \<Rightarrow> (([], Some err), f)
                          | Inr r \<Rightarrow>
                              (let (res, r1) = stream_Read r n
                               in (res, f\<lparr>fr_reader := Some r1\<rparr>))))))"

text \<open>\<^verbatim>\<open>fileReader.Seek\<close>\<close>

definition Seek ::
  "world \<Rightarrow> fileReader \<Rightarrow> int \<Rightarrow> int \<Rightarrow> (int \<times> error option) \<times> fileReader \<times> world" where
  "Seek w f offset whence =
     (if fr_closed f then ((0, Some (pathError f ''Seek'' errFileClosed)), f, w)
      else
        let (cerr, f1) = (case fr_reader f of
                            Some r \<Rightarrow> (let (e, r1) = stream_Close r
                                       in (e, f\<lparr>fr_reader := Some r1\<rparr>))
                          | None \<Rightarrow> (None, f))
        in case cerr of
             Some err \<Rightarrow> ((0, Some err), f1, w)
           | None \<Rightarrow>
               (case fr_file f1 of
                  Some fl \<Rightarrow>
                    (let (res, fl1) = file_Seek w fl offset whence
                     in (res, f1\<lparr>fr_file := Some fl1\<rparr>, w))
                | None \<Rightarrow>
                    (case openFile w (fr_fileInfo f1) of
                       (Inl err, w1) \<Rightarrow> ((0, Some err), f1, w1)
                     | (Inr osFile, w1) \<Rightarrow>
                         (let (res, fl1) = file_Seek w1 osFile offset whence
                          in (res, f1\<lparr>fr_file := Some fl1\<rparr>, w1)))))"

text \<open>
  \<^verbatim>\<open>fileReader.Readdir\<close>. The field \<^verbatim>\<open>f.readdir\<close> is \<open>None\<close> for the nil slice, which the code
  tells apart from an empty one; the returned slice is a list of node addresses.
\<close>

definition Readdir ::
  "world \<Rightarrow> fileReader \<Rightarrow> int \<Rightarrow> (nat list \<times> error option) \<times> fileReader" where
  "Readdir w f count =
     (if count > 0 then
        (case (case fr_readdir f of
                 None \<Rightarrow>
                   (case fileInfo_readdir (heap w ! fr_fileInfo f) of
                      Inl err \<Rightarrow> Inl err
                    | Inr v \<Rightarrow> Inr v)
               | Some v \<Rightarrow> Inr v) of
           Inl err \<Rightarrow> (([], Some (pathError f ''Readdir'' err)), f\<lparr>fr_readdir := None\<rparr>)
         | Inr v \<Rightarrow>
             if int (length v) \<ge> count
             then ((take (nat count) v, None), f\<lparr>fr_readdir := Some (drop (nat count) v)\<rparr>)
             else ((v, Some EOF), f\<lparr>fr_readdir := None\<rparr>))
      else
        (case fileInfo_readdir (heap w ! fr_fileInfo f) of
           Inl err \<Rightarrow> (([], Some (pathError f ''Readdir'' err)), f)
         | Inr v \<Rightarrow> ((v, None), f)))"

text \<open>\<^verbatim>\<open>fileReader.Stat\<close>\<close>

definition Stat :: "fileReader \<Rightarrow> nat \<times> error option" where
  "Stat f = (fr_fileInfo f, None)"

section \<open>Callers' loops\<close>

text \<open>
  A caller that reads a handle to its end with a buffer of \<open>k\<close> bytes, as \<^verbatim>\<open>ioutil.ReadAll\<close>
  does: it collects what each \<^verbatim>\<open>Read\<close> returns and stops at the first error. The loop
  belongs to the caller, so it runs on fuel: \<open>None\<close> is a loop that has not come to its end.
\<close>

fun readAll ::
  "nat \<Rightarrow> world \<Rightarrow> fileReader \<Rightarrow> nat \<Rightarrow> ((byte list \<times> error) \<times> fileReader) option" where
  "readAll 0 w f k = None"
| "readAll (Suc fuel) w f k =
     (case Read w f k of
        ((bs, Some err), f1) \<Rightarrow> Some ((bs, err), f1)
      | ((bs, None), f1) \<Rightarrow>
          (case readAll fuel w f1 k of
             None \<Rightarrow> None
           | Some ((rest, err), f2) \<Rightarrow> Some ((bs @ rest, err), f2)))"

text \<open>
  A caller that lists a directory in batches: it calls \<^verbatim>\<open>Readdir\<close> with the same count until
  a call returns an error, and keeps every batch, the one that came with the error last.
\<close>

fun Readdir_all ::
  "nat \<Rightarrow> world \<Rightarrow> fileReader \<Rightarrow> int \<Rightarrow> (nat list list \<times> error \<times> fileReader) option" where
  "Readdir_all 0 w f count = None"
| "Readdir_all (Suc fuel) w f count =
     (case Readdir w f count of
        ((batch, Some err), f1) \<Rightarrow> Some ([batch], err, f1)
      | ((batch, None), f1) \<Rightarrow>
          (case Readdir_all fuel w f1 count of
             None \<Rightarrow> None
           | Some (batches, err, f2) \<Rightarrow> Some (batch # batches, err, f2)))"

text \<open>The reading of a string of decimal digits.\<close>

definition decval :: "string \<Rightarrow> nat" where
  "decval ds = foldl (\<lambda>a c. 10 * a + (of_char c - 48)) 0 ds"

section \<open>The HTTP handler\<close>

text \<open>
  \<^verbatim>\<open>http.Header\<close> maps a canonical key to its values. Every key the package uses is written
  in canonical form already.
\<close>

type_synonym header = "string \<rightharpoonup> string list"

definition Header_Get :: "header \<Rightarrow> string \<Rightarrow> string" where
  "Header_Get h k = (case h k of None \<Rightarrow> [] | Some [] \<Rightarrow> [] | Some (v # vs) \<Rightarrow> v)"

definition Header_Set :: "header \<Rightarrow> string \<Rightarrow> string \<Rightarrow> header" where
  "Header_Set h k v = h(k \<mapsto> [v])"

definition Header_Del :: "header \<Rightarrow> string \<Rightarrow> header" where
  "Header_Del h k = h(k := None)"

record request =
  rMethod :: string
  rURLPath :: string
  rHeader :: header

text \<open>
  An \<^verbatim>\<open>http.ResponseWriter\<close>: its header map, the status given to \<^verbatim>\<open>WriteHeader\<close> if it was
  called, the bytes written so far, and the error that \<^verbatim>\<open>Write\<close> answers with when the
  connection is gone.
\<close>

record responseWriter =
  wHeader :: header
  wStatus :: "nat option"
  wBody :: "byte list"
  wFail :: "error option"

definition WriteHeader :: "responseWriter \<Rightarrow> nat \<Rightarrow> responseWriter" where
  "WriteHeader w code = w\<lparr>wStatus := Some code\<rparr>"

definition Write :: "responseWriter \<Rightarrow> byte list \<Rightarrow> error + responseWriter" where
  "Write w b = (case wFail w of Some err \<Rightarrow> Inl err | None \<Rightarrow> Inr (w\<lparr>wBody := wBody w @ b\<rparr>))"

text \<open>
  The parts of net/http, mime and the error texts that the handler hands over to: they
  are parameters of the model.
\<close>

record env =
  http_ParseTime :: "string \<Rightarrow> error + int"
  mime_TypeByExtension :: "string \<Rightarrow> string"
  err_Error :: "error \<Rightarrow> string"
  http_Error :: "responseWriter \<Rightarrow> string \<Rightarrow> nat \<Rightarrow> responseWriter"
  http_NotFound :: "responseWriter \<Rightarrow> request \<Rightarrow> responseWriter"
  http_ServeContent ::
    "responseWriter \<Rightarrow> request \<Rightarrow> string \<Rightarrow> int \<Rightarrow> byte list \<Rightarrow> responseWriter"

definition http_StatusNotModified :: nat where "http_StatusNotModified = 304"
definition http_StatusInternalServerError :: nat where "http_StatusInternalServerError = 500"

text \<open>The zero \<^verbatim>\<open>time.Time\<close> is 1 January of year 1, in Unix seconds.\<close>

definition time_IsZero :: "int \<Rightarrow> bool" where
  "time_IsZero t = (t = - 62135596800)"

text \<open>\<^verbatim>\<open>checkETag\<close>\<close>

definition checkETag ::
  "env \<Rightarrow> responseWriter \<Rightarrow> request \<Rightarrow> int \<Rightarrow> (string \<times> bool) \<times> responseWriter" where
  "checkETag ev w r modtime =
     (let etag = Header_Get (wHeader w) ''Etag'';
          rangeReq0 = Header_Get (rHeader r) ''Range'';
          ir = Header_Get (rHeader r) ''If-Range'';
          rangeReq =
            (if ir \<noteq> [] \<and> ir \<noteq> etag then
               (let timeMatches =
                      (if \<not> time_IsZero modtime then
                         (case http_ParseTime ev ir of
                            Inr t \<Rightarrow> t = modtime
                          | Inl err \<Rightarrow> False)
                       else False)
                in if \<not> timeMatches then [] else rangeReq0)
             else rangeReq0);
          inm = Header_Get (rHeader r) ''If-None-Match''
      in if inm \<noteq> [] then
           (if etag = [] then ((rangeReq, False), w)
            else if rMethod r \<noteq> ''GET'' \<and> rMethod r \<noteq> ''HEAD'' then ((rangeReq, False), w)
            else if inm = etag \<or> inm = ''*'' then
              (let h = wHeader w;
                   h1 = h(''Content-Type'' := None);
                   h2 = h1(''Content-Length'' := None)
               in (([], True), WriteHeader (w\<lparr>wHeader := h2\<rparr>) http_StatusNotModified))
            else ((rangeReq, False), w))
         else ((rangeReq, False), w))"

record fileHandler =
  h_readerAt :: "readerAt option"
  h_m :: "string \<rightharpoonup> zip_File"

text \<open>\<^verbatim>\<open>newHandler\<close>; ranging over the entries of a closed file system is a nil dereference.\<close>

definition newHandler :: "FileSystem \<Rightarrow> error + fileHandler" where
  "newHandler fs =
     (case fs_reader fs of
        None \<Rightarrow> Inl NilDereference
      | Some fl \<Rightarrow>
          Inr \<lparr>h_readerAt = fs_readerAt fs,
               h_m = foldl (\<lambda>m f. m(''/'' @ Name f \<mapsto> f)) Map.empty fl\<rparr>)"

definition internalServerError :: "env \<Rightarrow> responseWriter \<Rightarrow> request \<Rightarrow> error \<Rightarrow> responseWriter" where
  "internalServerError ev w r err =
     http_Error ev w (err_Error ev err) http_StatusInternalServerError"

text \<open>\<^verbatim>\<open>setContentType\<close>\<close>

definition setContentType :: "env \<Rightarrow> responseWriter \<Rightarrow> string \<Rightarrow> responseWriter" where
  "setContentType ev w filename =
     (let ctype =
            (case wHeader w ''Content-Type'' of
               None \<Rightarrow>
                 (let t = mime_TypeByExtension ev (filepath_Ext (path_Base filename))
                  in if t = [] then ''application/octet-stream'' else t)
             | Some ctypes \<Rightarrow> (case ctypes of [] \<Rightarrow> [] | c # cs \<Rightarrow> c))
      in if ctype \<noteq> [] then w\<lparr>wHeader := Header_Set (wHeader w) ''Content-Type'' ctype\<rparr>
         else w)"

text \<open>
  \<^verbatim>\<open>io.CopyN(w, reader, n)\<close>, whose result the caller drops: at most \<open>n\<close> bytes of what the
  stream still holds reach the writer; nothing does when the writer fails.
\<close>

definition io_CopyN :: "responseWriter \<Rightarrow> stream \<Rightarrow> int \<Rightarrow> responseWriter" where
  "io_CopyN w reader n =
     (case Write w (take (nat n) (drop (spos reader) (sdata reader))) of
        Inl err \<Rightarrow> w
      | Inr w1 \<Rightarrow> w1)"

text \<open>\<^verbatim>\<open>serveIdentity\<close>\<close>

definition serveIdentity :: "env \<Rightarrow> responseWriter \<Rightarrow> request \<Rightarrow> zip_File \<Rightarrow> responseWriter" where
  "serveIdentity ev w r f =
     (case zip_Open f of
        Inl err \<Rightarrow> internalServerError ev w r err
      | Inr reader \<Rightarrow>
          let w1 = setContentType ev w (Name f);
              w2 = w1\<lparr>wHeader := Header_Del (wHeader w1) ''Content-Encoding''\<rparr>;
              w3 = w2\<lparr>wHeader := Header_Set (wHeader w2) ''Content-Length''
                                  (fmt_d (unat (UncompressedSize64 f)))\<rparr>
          in if rMethod r \<noteq> ''HEAD''
             then io_CopyN w3 reader (int64 (uint (UncompressedSize64 f)))
             else w3)"

text \<open>\<^verbatim>\<open>getBuf\<close> hands out a buffer of \<^verbatim>\<open>bufSize\<close> bytes.\<close>

definition bufSize :: nat where
  "bufSize = 32768"

text \<open>
  The loop of \<^verbatim>\<open>serveDeflate\<close> that copies the raw bytes. \<open>written\<close>, \<open>remaining\<close> and
  \<open>offset\<close> are \<^verbatim>\<open>int64\<close>.
\<close>

function serveDeflate_loop ::
  "env \<Rightarrow> readerAt \<Rightarrow> request \<Rightarrow> responseWriter \<Rightarrow> int \<Rightarrow> int \<Rightarrow> int \<Rightarrow> responseWriter" where
  "serveDeflate_loop ev ra r w written remaining offset =
     (if remaining > 0 then
        (let size = (if int bufSize > remaining then nat remaining else bufSize)
         in case ra offset size of
              Inl err \<Rightarrow> (if written = 0 then internalServerError ev w r err else w)
            | Inr b \<Rightarrow>
                (case Write w b of
                   Inl err \<Rightarrow> w
                 | Inr w1 \<Rightarrow>
                     serveDeflate_loop ev ra r w1
                       (int64 (written + int size))
                       (int64 (remaining - int size))
                       (int64 (offset + int size))))
      else w)"
  by pat_completeness auto
termination
proof (relation "measure (\<lambda>(ev, ra, r, w, written, remaining, offset). nat remaining)")
  show "wf (measure (\<lambda>(ev, ra, r, w, written, remaining, offset). nat remaining))"
    by simp
next
  fix ev :: env and ra :: readerAt and r :: request and w w1 :: responseWriter
    and written remaining offset :: int and size :: nat and b :: "byte list"
  assume pos: "0 < remaining"
    and size: "size = (if remaining < int bufSize then nat remaining else bufSize)"
  have s1: "0 < int size" and s2: "int size \<le> remaining"
    using pos size by (auto simp: bufSize_def)
  have "(remaining - int size + 2 ^ 63) mod 2 ^ 64 \<le> remaining - int size + 2 ^ 63"
    using s2 by (intro zmod_le_nonneg_dividend) simp
  then have "int64 (remaining - int size) < remaining"
    using s1 by (simp add: int64_def)
  then show "((ev, ra, r, w1, int64 (written + int size), int64 (remaining - int size),
               int64 (offset + int size)),
              (ev, ra, r, w, written, remaining, offset))
             \<in> measure (\<lambda>(ev, ra, r, w, written, remaining, offset). nat remaining)"
    using pos by simp
qed

declare serveDeflate_loop.simps [simp del]

text \<open>
  \<^verbatim>\<open>serveDeflate\<close>. A nil \<^verbatim>\<open>readerAt\<close> makes the first \<^verbatim>\<open>ReadAt\<close> panic: the result is then
  \<open>Inl NilDereference\<close> instead of a response.
\<close>

definition serveDeflate ::
  "env \<Rightarrow> responseWriter \<Rightarrow> request \<Rightarrow> zip_File \<Rightarrow> readerAt option \<Rightarrow> error + responseWriter" where
  "serveDeflate ev w r f readerAt =
     (let acceptEncoding = Header_Get (rHeader r) ''Accept-Encoding'';
          acceptsDeflate = strings_Contains acceptEncoding ''deflate''
      in if \<not> acceptsDeflate then Inr (serveIdentity ev w r f)
         else
           let w1 = setContentType ev w (Name f);
               w2 = w1\<lparr>wHeader := Header_Set (wHeader w1) ''Content-Encoding'' ''deflate''\<rparr>;
               w3 = w2\<lparr>wHeader := Header_Set (wHeader w2) ''Content-Length''
                                   (fmt_d (unat (CompressedSize64 f)))\<rparr>
           in if rMethod r = ''HEAD'' then Inr w3
              else
                let remaining = int64 (uint (CompressedSize64 f))
                in case DataOffset f of
                     Inl err \<Rightarrow> Inr (internalServerError ev w3 r err)
                   | Inr offset \<Rightarrow>
                       (case readerAt of
                          None \<Rightarrow> if remaining > 0 then Inl NilDereference else Inr w3
                        | Some ra \<Rightarrow> Inr (serveDeflate_loop ev ra r w3 0 remaining offset)))"

text \<open>\<^verbatim>\<open>serveStandard\<close>: the temporary file is closed and removed when the call returns.\<close>

definition serveStandard ::
  "env \<Rightarrow> world \<Rightarrow> responseWriter \<Rightarrow> request \<Rightarrow> zip_File \<Rightarrow> responseWriter \<times> world" where
  "serveStandard ev wd w r f =
     (case createTempFile wd (Some f) of
        (Inl err, wd1) \<Rightarrow> (internalServerError ev w r err, wd1)
      | (Inr tempFile, wd1) \<Rightarrow>
          (http_ServeContent ev w r (Name f) (ModTime f)
             (case files wd1 (fpath tempFile) of None \<Rightarrow> [] | Some d \<Rightarrow> d),
           wd1\<lparr>files := (files wd1)(fpath tempFile := None)\<rparr>))"

text \<open>\<^verbatim>\<open>fileHandler.ServeHTTP\<close>\<close>

definition ServeHTTP ::
  "env \<Rightarrow> fileHandler \<Rightarrow> world \<Rightarrow> responseWriter \<Rightarrow> request
     \<Rightarrow> error + responseWriter \<times> world" where
  "ServeHTTP ev h wd w r0 =
     (let r = (if \<not> strings_HasPrefix (rURLPath r0) ''/''
               then r0\<lparr>rURLPath := ''/'' @ rURLPath r0\<rparr> else r0);
          upath = path_Clean (rURLPath r)
      in case h_m h upath of
           None \<Rightarrow> Inr (http_NotFound ev w r, wd)
         | Some f \<Rightarrow>
             let w1 = w\<lparr>wHeader := Header_Set (wHeader w) ''Etag'' (calcEtag f)\<rparr>;
                 ((rangeReq, done), w2) = checkETag ev w1 r (ModTime f)
             in if done then Inr (w2, wd)
                else if rangeReq \<noteq> [] then Inr (serveStandard ev wd w2 r f)
                else if Method f = zip_Store then Inr (serveIdentity ev w2 r f, wd)
                else if Method f = zip_Deflate then
                  (case serveDeflate ev w2 r f (h_readerAt h) of
                     Inl err \<Rightarrow> Inl err
                   | Inr w3 \<Rightarrow> Inr (w3, wd))
                else Inr (http_Error ev w2
                            (''unsupported zip method: '' @ fmt_d (unat (Method f)))
                            http_StatusInternalServerError, wd))"

text \<open>The path under which \<^verbatim>\<open>ServeHTTP\<close> looks a request up.\<close>

definition upath_of :: "request \<Rightarrow> string" where
  "upath_of r0 =
     path_Clean (if \<not> strings_HasPrefix (rURLPath r0) ''/'' then ''/'' @ rURLPath r0
                 else rURLPath r0)"

text \<open>
  What is assumed of \<^verbatim>\<open>http.Error\<close> and \<^verbatim>\<open>http.ServeContent\<close> when the \<^verbatim>\<open>Etag\<close> header is
  followed through a whole request: they leave that header as it is.
\<close>

definition keeps_Etag :: "env \<Rightarrow> bool" where
  "keeps_Etag ev =
     ((\<forall>w msg code. wHeader (http_Error ev w msg code) ''Etag'' = wHeader w ''Etag'') \<and>
      (\<forall>w r n t d. wHeader (http_ServeContent ev w r n t d) ''Etag'' = wHeader w ''Etag''))"

section \<open>Predicates on the index\<close>

text \<open>Every address in the map points into the heap.\<close>

definition valid_index :: "fileInfo list \<times> fileInfoMap \<Rightarrow> bool" where
  "valid_index st = (\<forall>k i. (k, i) \<in> set (snd st) \<longrightarrow> i < length (fst st))"

text \<open>The children of the node at \<open>i\<close> are in the order of \<^verbatim>\<open>fileInfoList.Less\<close>.\<close>

definition sorted_node :: "fileInfo list \<Rightarrow> nat \<Rightarrow> bool" where
  "sorted_node hp i = sorted (map (\<lambda>c. fileInfo_Name (hp ! c)) (fi_fileInfos (hp ! i)))"

text \<open>What a directory handle has still to hand out.\<close>

definition pending :: "world \<Rightarrow> fileReader \<Rightarrow> nat list" where
  "pending w f =
     (case fr_readdir f of None \<Rightarrow> fi_fileInfos (heap w ! fr_fileInfo f) | Some v \<Rightarrow> v)"

text \<open>Path elements: not empty and without a slash.\<close>

definition plain_elements :: "string list \<Rightarrow> bool" where
  "plain_elements es = (\<forall>e \<in> set es. e \<noteq> [] \<and> CHR ''/'' \<notin> set e)"

text \<open>
  What the first loop of \<^verbatim>\<open>New\<close> keeps true of the map and of the names of the nodes, in
  the order in which the nodes were created: a directory name is registered with and
  without its slash under one node; every node's name and stripped name are keys of
  the map; a node whose name is the stripped name of another node is the older one.
\<close>

definition alias_ok :: "(string \<rightharpoonup> nat) \<Rightarrow> bool" where
  "alias_ok m =
     (\<forall>s. \<not> strings_HasSuffix s ''/'' \<longrightarrow> m (s @ ''/'') \<noteq> None \<longrightarrow> m s = m (s @ ''/''))"

definition registered :: "string list \<Rightarrow> (string \<rightharpoonup> nat) \<Rightarrow> bool" where
  "registered names m =
     (\<forall>n \<in> set names. m n \<noteq> None \<and> m (strings_TrimRight n ''/'') \<noteq> None)"

definition bare_first :: "string list \<Rightarrow> bool" where
  "bare_first names =
     (\<forall>i j. i < length names \<longrightarrow> j < length names \<longrightarrow>
            strings_TrimRight (names ! j) ''/'' = names ! i \<longrightarrow> names ! j \<noteq> names ! i
            \<longrightarrow> i < j)"

definition index_inv :: "fileInfo list \<times> fileInfoMap \<Rightarrow> bool" where
  "index_inv st =
     (alias_ok (map_of (snd st)) \<and> registered (map fi_name (fst st)) (map_of (snd st))
      \<and> bare_first (map fi_name (fst st)) \<and> distinct (map fi_name (fst st)))"

text \<open>The nodes whose name is \<open>s\<close>, with or without trailing slashes.\<close>

definition nodes_named :: "fileInfo list \<Rightarrow> string \<Rightarrow> fileInfo list" where
  "nodes_named hp s = filter (\<lambda>fi. strings_TrimRight (fi_name fi) ''/'' = s) hp"

text \<open>
  The temporary file that a node remembers came from \<^verbatim>\<open>ioutil.TempFile\<close> and holds the content
  of the node's entry.
\<close>

definition temp_files_ok :: "world \<Rightarrow> bool" where
  "temp_files_ok w =
     (\<forall>i < length (heap w).
        fi_tempPath (heap w ! i) \<noteq> [] \<longrightarrow>
          (\<exists>zf d n. fi_zipFile (heap w ! i) = Some zf \<and> Opened zf = Inr d
                    \<and> files w (fi_tempPath (heap w ! i)) = Some d
                    \<and> n < tempSeq w \<and> fi_tempPath (heap w ! i) = tempName n))"

section \<open>Example data\<close>

text \<open>An environment whose library calls do the least that their documentation asks for.\<close>

definition plain_env :: env where
  "plain_env =
     \<lparr>http_ParseTime = (\<lambda>s. Inl ErrInvalid),
      mime_TypeByExtension = (\<lambda>ext. if ext = ''.png'' then ''image/png'' else []),
      err_Error = (\<lambda>e. ''error''),
      http_Error = (\<lambda>w msg code.
         WriteHeader (w\<lparr>wHeader := Header_Set (wHeader w) ''Content-Type''
                                      ''text/plain; charset=utf-8''\<rparr>) code),
      http_NotFound = (\<lambda>w r. WriteHeader w 404),
      http_ServeContent = (\<lambda>w r n t d. w\<lparr>wBody := wBody w @ d\<rparr>)\<rparr>"

definition entry_1 :: zip_File where
  "entry_1 =
     \<lparr>Name = ''a.dat'', CRC32 = 0x27106c15, CompressedSize64 = 0x45b,
      UncompressedSize64 = 3, UncompressedSize = 3, Method = 0, ModeIsDir = False,
      ModTime = 1000000000, Opened = Inr [1, 2, 3], DataOffset = Inr 40\<rparr>"

definition entry_random_dat :: zip_File where
  "entry_random_dat =
     \<lparr>Name = ''random.dat'', CRC32 = 0x6c15f45b, CompressedSize64 = 0x2710,
      UncompressedSize64 = 0x2710, UncompressedSize = 0x2710, Method = 0,
      ModeIsDir = False, ModTime = 1000000000, Opened = Inr [], DataOffset = Inr 40\<rparr>"

definition handler_1 :: fileHandler where
  "handler_1 = \<lparr>h_readerAt = Some (file_ReadAt []), h_m = [''/a.dat'' \<mapsto> entry_1]\<rparr>"

definition empty_world :: world where
  "empty_world =
     \<lparr>heap = [], files = Map.empty, tempSeq = 0, tempFileErr = None, copyErr = None,
      seekErr = None\<rparr>"

definition empty_response :: responseWriter where
  "empty_response = \<lparr>wHeader = Map.empty, wStatus = None, wBody = [], wFail = None\<rparr>"

definition get_a_dat :: request where
  "get_a_dat = \<lparr>rMethod = ''GET'', rURLPath = ''/a.dat'', rHeader = Map.empty\<rparr>"

definition get_a_dat_inm :: request where
  "get_a_dat_inm =
     \<lparr>rMethod = ''GET'', rURLPath = ''/a.dat'',
      rHeader = [''If-None-Match'' \<mapsto> [''\"45b27106c15\"'']]\<rparr>"

text \<open>
  A small archive: the directory entry \<^verbatim>\<open>img/\<close> and two files below it, the first one
  deflated (its three raw bytes lie at offset 2 of the archive), the second one stored.
\<close>

definition e_img :: zip_File where
  "e_img =
     \<lparr>Name = ''img/'', CRC32 = 0, CompressedSize64 = 0, UncompressedSize64 = 0,
      UncompressedSize = 0, Method = 0, ModeIsDir = True, ModTime = 1000000000,
      Opened = Inr [], DataOffset = Inr 0\<rparr>"

definition e_circle :: zip_File where
  "e_circle =
     \<lparr>Name = ''img/circle.png'', CRC32 = 0x529fb2ff, CompressedSize64 = 3,
      UncompressedSize64 = 5, UncompressedSize = 5, Method = 8, ModeIsDir = False,
      ModTime = 1000000000, Opened = Inr [1, 2, 3, 4, 5], DataOffset = Inr 2\<rparr>"

definition e_another :: zip_File where
  "e_another =
     \<lparr>Name = ''img/another-circle.png'', CRC32 = 0x11, CompressedSize64 = 2,
      UncompressedSize64 = 2, UncompressedSize = 2, Method = 0, ModeIsDir = False,
      ModTime = 1000000000, Opened = Inr [6, 7], DataOffset = Inr 5\<rparr>"

definition archive_1 :: archive where
  "archive_1 =
     \<lparr>ar_bytes = [0, 0, 9, 8, 7, 6, 7, 0], ar_File = [e_img, e_circle, e_another],
      ar_closeErr = None\<rparr>"

definition fm_1 :: fileInfoMap where
  "fm_1 = [(''img/'', 0), (''img'', 0), (''/'', 1), ([], 1), (''img/circle.png'', 2),
           (''img/another-circle.png'', 3)]"

definition heap_1 :: "fileInfo list" where
  "heap_1 =
     [\<lparr>fi_name = ''img/'', fi_zipFile = Some e_img, fi_fileInfos = [3, 2], fi_tempPath = []\<rparr>,
      \<lparr>fi_name = ''/'', fi_zipFile = None, fi_fileInfos = [0], fi_tempPath = []\<rparr>,
      \<lparr>fi_name = ''img/circle.png'', fi_zipFile = Some e_circle, fi_fileInfos = [],
        fi_tempPath = []\<rparr>,
      \<lparr>fi_name = ''img/another-circle.png'', fi_zipFile = Some e_another, fi_fileInfos = [],
        fi_tempPath = []\<rparr>]"

definition fs_1 :: FileSystem where
  "fs_1 =
     \<lparr>fs_readerAt = Some (file_ReadAt (ar_bytes archive_1)),
      fs_reader = Some (ar_File archive_1), fs_closer = Some None, fs_fileInfos = fm_1\<rparr>"

definition world_1 :: world where
  "world_1 = empty_world\<lparr>heap := heap_1\<rparr>"

definition handler_2 :: fileHandler where
  "handler_2 =
     \<lparr>h_readerAt = Some (file_ReadAt (ar_bytes archive_1)),
      h_m = [''/img/'' \<mapsto> e_img, ''/img/circle.png'' \<mapsto> e_circle,
             ''/img/another-circle.png'' \<mapsto> e_another]\<rparr>"

definition get_circle_deflate :: request where
  "get_circle_deflate =
     \<lparr>rMethod = ''GET'', rURLPath = ''/img/circle.png'',
      rHeader = [''Accept-Encoding'' \<mapsto> [''deflate, gzip'']]\<rparr>"

definition get_circle_gzip :: request where
  "get_circle_gzip =
     \<lparr>rMethod = ''GET'', rURLPath = ''/img/circle.png'',
      rHeader = [''Accept-Encoding'' \<mapsto> [''gzip'']]\<rparr>"

text \<open>
  Two archives that hold the file \<^verbatim>\<open>a\<close> and the directory \<^verbatim>\<open>a/\<close>: in \<open>archive_a\<close> the file
  comes first, in \<open>archive_b\<close> the directory.
\<close>

definition e_a :: zip_File where
  "e_a =
     \<lparr>Name = ''a'', CRC32 = 1, CompressedSize64 = 1, UncompressedSize64 = 1,
      UncompressedSize = 1, Method = 0, ModeIsDir = False, ModTime = 1000000000,
      Opened = Inr [1], DataOffset = Inr 0\<rparr>"

definition e_a_dir :: zip_File where
  "e_a_dir =
     \<lparr>Name = ''a/'', CRC32 = 0, CompressedSize64 = 0, UncompressedSize64 = 0,
      UncompressedSize = 0, Method = 0, ModeIsDir = True, ModTime = 1000000000,
      Opened = Inr [], DataOffset = Inr 1\<rparr>"

definition archive_a :: archive where
  "archive_a = \<lparr>ar_bytes = [1], ar_File = [e_a, e_a_dir], ar_closeErr = None\<rparr>"

definition fs_a :: FileSystem where
  "fs_a =
     \<lparr>fs_readerAt = Some (file_ReadAt (ar_bytes archive_a)),
      fs_reader = Some (ar_File archive_a), fs_closer = Some None,
      fs_fileInfos = [(''a'', 2), (''/'', 1), ([], 1), (''a/'', 2)]\<rparr>"

definition heap_a :: "fileInfo list" where
  "heap_a =
     [\<lparr>fi_name = ''a'', fi_zipFile = Some e_a, fi_fileInfos = [], fi_tempPath = []\<rparr>,
      \<lparr>fi_name = ''/'', fi_zipFile = None, fi_fileInfos = [0, 2], fi_tempPath = []\<rparr>,
      \<lparr>fi_name = ''a/'', fi_zipFile = Some e_a_dir, fi_fileInfos = [], fi_tempPath = []\<rparr>]"

definition archive_b :: archive where
  "archive_b = \<lparr>ar_bytes = [1], ar_File = [e_a_dir, e_a], ar_closeErr = None\<rparr>"

definition fs_b :: FileSystem where
  "fs_b =
     \<lparr>fs_readerAt = Some (file_ReadAt (ar_bytes archive_b)),
      fs_reader = Some (ar_File archive_b), fs_closer = Some None,
      fs_fileInfos = [(''a/'', 0), (''a'', 0), (''/'', 1), ([], 1)]\<rparr>"

definition heap_b :: "fileInfo list" where
  "heap_b =
     [\<lparr>fi_name = ''a/'', fi_zipFile = Some e_a, fi_fileInfos = [], fi_tempPath = []\<rparr>,
      \<lparr>fi_name = ''/'', fi_zipFile = None, fi_fileInfos = [0, 0], fi_tempPath = []\<rparr>]"

text \<open>A GET request that names deflate on the second of its two \<^verbatim>\<open>Accept-Encoding\<close> lines.\<close>

definition get_circle_two_lines :: request where
  "get_circle_two_lines =
     \<lparr>rMethod = ''GET'', rURLPath = ''/img/circle.png'',
      rHeader = [''Accept-Encoding'' \<mapsto> [''gzip'', ''deflate'']]\<rparr>"

section \<open>Rendering of numbers\<close>

lemma lt16_cases:
  "(d::nat) < 16 \<Longrightarrow> d = 0 \<or> d = 1 \<or> d = 2 \<or> d = 3 \<or> d = 4 \<or> d = 5 \<or> d = 6 \<or> d = 7
     \<or> d = 8 \<or> d = 9 \<or> d = 10 \<or> d = 11 \<or> d = 12 \<or> d = 13 \<or> d = 14 \<or> d = 15"
  by arith

lemma hexchar_in: "hexchar d \<in> set ''0123456789abcdef''"
proof -
  have "d mod 16 < 16" by simp
  from lt16_cases[OF this] show ?thesis unfolding hexchar_def by (elim disjE) simp_all
qed

lemma hexdigit_val_hexchar: "d < 16 \<Longrightarrow> hexdigit_val (hexchar d) = d"
proof -
  assume "d < 16"
  from lt16_cases[OF this] show ?thesis
    unfolding hexchar_def hexdigit_val_def by (elim disjE) simp_all
qed

lemma hexchar_zero: "d < 16 \<Longrightarrow> hexchar d = CHR ''0'' \<Longrightarrow> d = 0"
  using hexdigit_val_hexchar[of d] by (simp add: hexdigit_val_def)

lemma fmt_x_set: "set (fmt_x n) \<subseteq> set ''0123456789abcdef''"
proof (induction n rule: fmt_x.induct)
  case (1 n)
  show ?case
  proof (cases "n < 16")
    case True
    then show ?thesis using hexchar_in[of n] by (subst fmt_x.simps) simp
  next
    case False
    then show ?thesis using 1 hexchar_in[of "n mod 16"] by (subst fmt_x.simps) simp
  qed
qed

lemma fmt_x_nonempty: "fmt_x n \<noteq> []"
  by (subst fmt_x.simps) simp

lemma hexval_snoc: "hexval (ds @ [c]) = 16 * hexval ds + hexdigit_val c"
  by (simp add: hexval_def)

lemma hexval_fmt_x: "hexval (fmt_x n) = n"
proof (induction n rule: fmt_x.induct)
  case (1 n)
  show ?case
  proof (cases "n < 16")
    case True
    then show ?thesis by (subst fmt_x.simps) (simp add: hexval_def hexdigit_val_hexchar)
  next
    case False
    then have "hexval (fmt_x (n div 16)) = n div 16" using 1 by simp
    then show ?thesis using False
      by (subst fmt_x.simps) (simp add: hexval_snoc hexdigit_val_hexchar)
  qed
qed

lemma fmt_x_hd: "0 < n \<Longrightarrow> hd (fmt_x n) \<noteq> CHR ''0''"
proof (induction n rule: fmt_x.induct)
  case (1 n)
  show ?case
  proof (cases "n < 16")
    case True
    then show ?thesis using 1(2) hexchar_zero[of n] by (subst fmt_x.simps) auto
  next
    case False
    then have "0 < n div 16" by (simp add: div_greater_zero_iff)
    then have "hd (fmt_x (n div 16)) \<noteq> CHR ''0''" using 1(1) False by simp
    then show ?thesis using False fmt_x_nonempty[of "n div 16"]
      by (subst fmt_x.simps) simp
  qed
qed

lemma int64_id: "- (2 ^ 63) \<le> x \<Longrightarrow> x < 2 ^ 63 \<Longrightarrow> int64 x = x"
  by (simp add: int64_def)

section \<open>The ETag\<close>

lemma unat_ucast_32_64: "unat (ucast (c :: 32 word) :: 64 word) = unat c"
  by (simp add: unsigned_ucast_eq take_bit_nat_eq_self unsigned_less[of c, simplified]
      order_less_trans[OF unsigned_less])

lemma unat_push_bit_and_mask:
  "unat (push_bit 32 ((s :: 64 word) AND mask 32) :: 64 word)
     = push_bit 32 (take_bit 32 (unat s))"
  by (rule bit_eqI) (auto simp: bit_simps)

lemma etag_word_value:
  "unat ((ucast (c :: 32 word) :: 64 word) XOR push_bit 32 ((s :: 64 word) AND 0xffffffff))
     = etag_value (unat c) (unat s)"
proof -
  have m: "(0xffffffff :: 64 word) = mask 32" by (simp add: mask_eq_exp_minus_1)
  show ?thesis unfolding m etag_value_def
    by (simp only: unsigned_xor_eq unat_ucast_32_64 unat_push_bit_and_mask)
qed

lemma calcEtag_nonempty: "calcEtag f \<noteq> []"
  by (simp add: calcEtag_def)

text \<open>
  C2. For every entry, \<open>calcEtag\<close> returns a double quote, a string of lowercase
  hexadecimal digits without a leading zero, and a double quote; the digits read as the
  64-bit value CRC32 XOR ((compressed size, low 32 bits) shifted left by 32).
\<close>

theorem calcEtag_quoted_hex:
  "\<exists>ds. calcEtag f = [CHR 0x22] @ ds @ [CHR 0x22]
        \<and> ds \<noteq> []
        \<and> set ds \<subseteq> set ''0123456789abcdef''
        \<and> (ds = ''0'' \<or> hd ds \<in> set ''123456789abcdef'')
        \<and> hexval ds = etag_value (unat (CRC32 f)) (unat (CompressedSize64 f))
        \<and> etag_value (unat (CRC32 f)) (unat (CompressedSize64 f)) < 2 ^ 64"
proof -
  define v where
    "v = unat ((ucast (CRC32 f) :: 64 word) XOR push_bit 32 (CompressedSize64 f AND 0xffffffff))"
  have ve: "v = etag_value (unat (CRC32 f)) (unat (CompressedSize64 f))"
    unfolding v_def by (rule etag_word_value)
  have c: "calcEtag f = [CHR 0x22] @ fmt_x v @ [CHR 0x22]"
    by (simp add: calcEtag_def v_def)
  have lead: "fmt_x v = ''0'' \<or> hd (fmt_x v) \<in> set ''123456789abcdef''"
  proof (cases "v = 0")
    case True
    then show ?thesis by (simp add: fmt_x.simps hexchar_def)
  next
    case False
    then have "hd (fmt_x v) \<noteq> CHR ''0''" using fmt_x_hd[of v] by simp
    moreover have "hd (fmt_x v) \<in> set ''0123456789abcdef''"
      using fmt_x_set[of v] fmt_x_nonempty[of v] hd_in_set by blast
    ultimately show ?thesis by auto
  qed
  have bound: "v < 2 ^ 64"
    unfolding v_def by (rule order_less_le_trans[OF unsigned_less]) simp
  show ?thesis
    using c fmt_x_nonempty[of v] fmt_x_set[of v] lead hexval_fmt_x[of v] bound
    unfolding ve by blast
qed

theorem calcEtag_quoted_hex_witness:
  "\<exists>ds. calcEtag entry_random_dat = [CHR 0x22] @ ds @ [CHR 0x22]
        \<and> set ds \<subseteq> set ''0123456789abcdef''
        \<and> hexval ds = 0x27106c15f45b"
proof -
  have "etag_value (unat (CRC32 entry_random_dat)) (unat (CompressedSize64 entry_random_dat))
          = 0x27106c15f45b"
    by (simp add: entry_random_dat_def etag_value_def)
  then show ?thesis
    using calcEtag_quoted_hex [of entry_random_dat] by auto
qed

section \<open>The Etag header through a request\<close>

lemma setContentType_other:
  "k \<noteq> ''Content-Type'' \<Longrightarrow> wHeader (setContentType ev w n) k = wHeader w k"
  by (simp add: setContentType_def Header_Set_def Let_def)

lemma setContentType_fields:
  "wBody (setContentType ev w n) = wBody w"
  "wStatus (setContentType ev w n) = wStatus w"
  "wFail (setContentType ev w n) = wFail w"
  by (simp_all add: setContentType_def Let_def)

lemma checkETag_Etag:
  "checkETag ev w r t = (res, w') \<Longrightarrow> wHeader w' ''Etag'' = wHeader w ''Etag''"
  by (auto simp: checkETag_def Let_def WriteHeader_def split: if_splits)

lemma serveIdentity_Etag:
  "keeps_Etag ev \<Longrightarrow> wHeader (serveIdentity ev w r f) ''Etag'' = wHeader w ''Etag''"
  by (auto simp: serveIdentity_def keeps_Etag_def internalServerError_def Let_def io_CopyN_def
      Write_def Header_Set_def Header_Del_def setContentType_other
      split: sum.splits option.splits)

lemma serveDeflate_loop_Etag:
  "keeps_Etag ev \<Longrightarrow>
   wHeader (serveDeflate_loop ev ra r w written remaining offset) ''Etag'' = wHeader w ''Etag''"
proof (induction ev ra r w written remaining offset rule: serveDeflate_loop.induct)
  case (1 ev ra r w written remaining offset)
  show ?case
  proof (cases "remaining > 0")
    case False
    then show ?thesis by (subst serveDeflate_loop.simps) simp
  next
    case True
    define size where "size = (if int bufSize > remaining then nat remaining else bufSize)"
    show ?thesis
    proof (cases "ra offset size")
      case (Inl err)
      then show ?thesis using True 1(2)
        by (subst serveDeflate_loop.simps)
           (simp add: size_def[symmetric] keeps_Etag_def internalServerError_def)
    next
      case (Inr b)
      show ?thesis
      proof (cases "Write w b")
        case (Inl err)
        then show ?thesis using True Inr
          by (subst serveDeflate_loop.simps) (simp add: size_def[symmetric])
      next
        case Inr2: (Inr w1)
        have "wHeader w1 ''Etag'' = wHeader w ''Etag''"
          using Inr2 by (auto simp: Write_def split: option.splits)
        moreover have "wHeader (serveDeflate_loop ev ra r w1 (int64 (written + int size))
                 (int64 (remaining - int size)) (int64 (offset + int size))) ''Etag''
               = wHeader w1 ''Etag''"
          using 1(1)[OF True size_def Inr Inr2 1(2)] .
        ultimately show ?thesis using True Inr Inr2
          by (subst serveDeflate_loop.simps) (simp add: size_def[symmetric])
      qed
    qed
  qed
qed

lemma serveDeflate_Etag:
  assumes k: "keeps_Etag ev" and s: "serveDeflate ev w r f ra = Inr w'"
  shows "wHeader w' ''Etag'' = wHeader w ''Etag''"
proof (cases "strings_Contains (Header_Get (rHeader r) ''Accept-Encoding'') ''deflate''")
  case False
  then have "w' = serveIdentity ev w r f" using s by (simp add: serveDeflate_def)
  then show ?thesis using serveIdentity_Etag[OF k] by simp
next
  case True
  define w3 where "w3 = (let w1 = setContentType ev w (Name f);
               w2 = w1\<lparr>wHeader := Header_Set (wHeader w1) ''Content-Encoding'' ''deflate''\<rparr>
           in w2\<lparr>wHeader := Header_Set (wHeader w2) ''Content-Length''
                                   (fmt_d (unat (CompressedSize64 f)))\<rparr>)"
  have e3: "wHeader w3 ''Etag'' = wHeader w ''Etag''"
    by (simp add: w3_def Let_def Header_Set_def setContentType_other)
  have "wHeader w' ''Etag'' = wHeader w3 ''Etag''"
  proof (cases "rMethod r = ''HEAD''")
    case True
    then show ?thesis using s \<open>strings_Contains _ _\<close>
      by (simp add: serveDeflate_def w3_def Let_def)
  next
    case notHead: False
    show ?thesis
    proof (cases "DataOffset f")
      case (Inl err)
      then have "w' = internalServerError ev w3 r err"
        using s True notHead by (simp add: serveDeflate_def w3_def Let_def)
      then show ?thesis using k by (simp add: keeps_Etag_def internalServerError_def)
    next
      case (Inr offset)
      show ?thesis
      proof (cases ra)
        case None
        then show ?thesis using s True notHead Inr
          by (auto simp: serveDeflate_def w3_def Let_def split: if_splits)
      next
        case (Some rd)
        then have "w' = serveDeflate_loop ev rd r w3 0 (int64 (uint (CompressedSize64 f))) offset"
          using s True notHead Inr by (simp add: serveDeflate_def w3_def Let_def)
        then show ?thesis using serveDeflate_loop_Etag[OF k] by simp
      qed
    qed
  qed
  then show ?thesis using e3 by simp
qed

lemma serveStandard_Etag:
  assumes k: "keeps_Etag ev" and s: "serveStandard ev wd w r f = (w', wd')"
  shows "wHeader w' ''Etag'' = wHeader w ''Etag''"
proof (cases "createTempFile wd (Some f)")
  case (Pair res wd1)
  show ?thesis
  proof (cases res)
    case (Inl err)
    then have "w' = internalServerError ev w r err"
      using s Pair by (simp add: serveStandard_def)
    then show ?thesis using k by (simp add: keeps_Etag_def internalServerError_def)
  next
    case (Inr tf)
    then have "w' = http_ServeContent ev w r (Name f) (ModTime f)
             (case files wd1 (fpath tf) of None \<Rightarrow> [] | Some d \<Rightarrow> d)"
      using s Pair by (simp add: serveStandard_def)
    then show ?thesis using k by (simp add: keeps_Etag_def)
  qed
qed

text \<open>ServeHTTP once the entry is found and checkETag has answered.\<close>

lemma ServeHTTP_found:
  assumes m: "h_m h (upath_of r) = Some f"
    and c: "checkETag ev (w\<lparr>wHeader := Header_Set (wHeader w) ''Etag'' (calcEtag f)\<rparr>)
              (if \<not> strings_HasPrefix (rURLPath r) ''/''
               then r\<lparr>rURLPath := ''/'' @ rURLPath r\<rparr> else r) (ModTime f)
            = ((rangeReq, don), w2)"
  shows "ServeHTTP ev h wd w r =
     (let r1 = (if \<not> strings_HasPrefix (rURLPath r) ''/''
               then r\<lparr>rURLPath := ''/'' @ rURLPath r\<rparr> else r) in
      if don then Inr (w2, wd)
      else if rangeReq \<noteq> [] then Inr (serveStandard ev wd w2 r1 f)
      else if Method f = zip_Store then Inr (serveIdentity ev w2 r1 f, wd)
      else if Method f = zip_Deflate then
        (case serveDeflate ev w2 r1 f (h_readerAt h) of
           Inl err \<Rightarrow> Inl err
         | Inr w3 \<Rightarrow> Inr (w3, wd))
      else Inr (http_Error ev w2 (''unsupported zip method: '' @ fmt_d (unat (Method f)))
                  http_StatusInternalServerError, wd))"
proof -
  have up: "path_Clean (rURLPath (if \<not> strings_HasPrefix (rURLPath r) ''/''
               then r\<lparr>rURLPath := ''/'' @ rURLPath r\<rparr> else r)) = upath_of r"
    by (simp add: upath_of_def)
  show ?thesis
    unfolding ServeHTTP_def Let_def up using m c by simp
qed

lemma ServeHTTP_Etag:
  assumes k: "keeps_Etag ev" and m: "h_m h (upath_of r) = Some f"
    and s: "ServeHTTP ev h wd w r = Inr (w', wd')"
  shows "Header_Get (wHeader w') ''Etag'' = calcEtag f"
proof -
  define r1 where "r1 = (if \<not> strings_HasPrefix (rURLPath r) ''/''
               then r\<lparr>rURLPath := ''/'' @ rURLPath r\<rparr> else r)"
  define w1 where "w1 = w\<lparr>wHeader := Header_Set (wHeader w) ''Etag'' (calcEtag f)\<rparr>"
  obtain rangeReq don w2 where c: "checkETag ev w1 r1 (ModTime f) = ((rangeReq, don), w2)"
    by (metis surj_pair)
  have e1: "wHeader w1 ''Etag'' = Some [calcEtag f]"
    by (simp add: w1_def Header_Set_def)
  have e2: "wHeader w2 ''Etag'' = Some [calcEtag f]"
    using checkETag_Etag[OF c] e1 by simp
  note f = ServeHTTP_found[OF m c[unfolded w1_def r1_def], of wd, folded r1_def]
  have key: "wHeader w' ''Etag'' = wHeader w2 ''Etag''"
  proof (cases don)
    case True
    then show ?thesis using s f by (simp add: Let_def)
  next
    case nd: False
    show ?thesis
    proof (cases "rangeReq \<noteq> []")
      case True
      then have "serveStandard ev wd w2 r1 f = (w', wd')" using s f nd by (simp add: Let_def)
      then show ?thesis by (rule serveStandard_Etag[OF k])
    next
      case nr: False
      show ?thesis
      proof (cases "Method f = zip_Store")
        case True
        then have "w' = serveIdentity ev w2 r1 f" using s f nd nr by (simp add: Let_def)
        then show ?thesis using serveIdentity_Etag[OF k] by simp
      next
        case ns: False
        show ?thesis
        proof (cases "Method f = zip_Deflate")
          case True
          then have "serveDeflate ev w2 r1 f (h_readerAt h) = Inr w'"
            using s f nd nr ns by (simp add: Let_def split: sum.splits)
          then show ?thesis by (rule serveDeflate_Etag[OF k])
        next
          case False
          then have "w' = http_Error ev w2 (''unsupported zip method: '' @ fmt_d (unat (Method f)))
                  http_StatusInternalServerError"
            using s f nd nr ns by (simp add: Let_def)
          then show ?thesis using k by (simp add: keeps_Etag_def)
        qed
      qed
    qed
  qed
  show ?thesis using key e2 by (simp add: Header_Get_def)
qed


section \<open>Evaluation of the example request\<close>

lemma upath_of_get_a_dat: "upath_of get_a_dat = ''/a.dat''"
  by (simp add: upath_of_def get_a_dat_def strings_HasPrefix_def path_Clean_def
      clean_element_def)

lemma upath_of_get_a_dat_inm: "upath_of get_a_dat_inm = ''/a.dat''"
  by (simp add: upath_of_def get_a_dat_inm_def strings_HasPrefix_def path_Clean_def
      clean_element_def)

lemma ServeHTTP_get_a_dat:
  "\<exists>w'. ServeHTTP plain_env handler_1 empty_world empty_response get_a_dat
           = Inr (w', empty_world)"
  by (simp add: ServeHTTP_def get_a_dat_def strings_HasPrefix_def path_Clean_def
      clean_element_def handler_1_def checkETag_def Header_Get_def Header_Set_def
      Header_Del_def empty_response_def entry_1_def zip_Store_def serveIdentity_def
      zip_Open_def setContentType_def plain_env_def filepath_Ext_def path_Base_def
      strings_TrimRight_def io_CopyN_def Write_def int64_def calcEtag_def fmt_x.simps
      fmt_d.simps hexchar_def Let_def)

lemma keeps_Etag_plain_env: "keeps_Etag plain_env"
  by (simp add: keeps_Etag_def plain_env_def WriteHeader_def Header_Set_def)

section \<open>The example ETag\<close>

text \<open>
  C1, as stated: an entry with CRC32 0x27106c15 and compressed size 0x45b would get the
  ETag "27106c15f45b". It does not: the compressed size fills the upper half of the value
  and is printed first.
\<close>

theorem calcEtag_example_counterexample:
  "CRC32 entry_1 = 0x27106c15 \<and> CompressedSize64 entry_1 = 0x45b
   \<and> calcEtag entry_1 = ''\"45b27106c15\"''
   \<and> calcEtag entry_1 \<noteq> ''\"27106c15f45b\"''"
  by (simp add: calcEtag_def entry_1_def fmt_x.simps hexchar_def)

text \<open>
  C1, amended. For every entry whose CRC32 is 0x27106c15 and whose compressed size is
  0x45b, the ETag computed by \<open>calcEtag\<close>, and found in the response's \<open>Etag\<close> header after
  \<open>ServeHTTP\<close> has served that entry, is the string "45b27106c15" with its double quotes.
  The string "27106c15f45b" is the ETag of an entry whose CRC32 is 0x6c15f45b and whose
  compressed size is 0x2710.
\<close>

theorem calcEtag_example:
  assumes "CRC32 f = 0x27106c15" and "CompressedSize64 f = 0x45b"
    and "CRC32 g = 0x6c15f45b" and "CompressedSize64 g = 0x2710"
    and "keeps_Etag ev" and "h_m h (upath_of r) = Some f"
    and "ServeHTTP ev h wd w r = Inr (w', wd')"
  shows "calcEtag f = ''\"45b27106c15\"''
         \<and> Header_Get (wHeader w') ''Etag'' = ''\"45b27106c15\"''
         \<and> calcEtag g = ''\"27106c15f45b\"''"
proof -
  have f: "calcEtag f = ''\"45b27106c15\"''"
    using assms(1,2) by (simp add: calcEtag_def fmt_x.simps hexchar_def)
  have g: "calcEtag g = ''\"27106c15f45b\"''"
    using assms(3,4) by (simp add: calcEtag_def fmt_x.simps hexchar_def)
  have "Header_Get (wHeader w') ''Etag'' = calcEtag f"
    using assms(5,6,7) by (rule ServeHTTP_Etag)
  then show ?thesis using f g by simp
qed

theorem calcEtag_example_witness:
  "CRC32 entry_1 = 0x27106c15 \<and> CompressedSize64 entry_1 = 0x45b
   \<and> CRC32 entry_random_dat = 0x6c15f45b \<and> CompressedSize64 entry_random_dat = 0x2710
   \<and> keeps_Etag plain_env \<and> h_m handler_1 (upath_of get_a_dat) = Some entry_1
   \<and> (\<exists>w'. ServeHTTP plain_env handler_1 empty_world empty_response get_a_dat
               = Inr (w', empty_world)
            \<and> Header_Get (wHeader w') ''Etag'' = ''\"45b27106c15\"'')
   \<and> calcEtag entry_1 = ''\"45b27106c15\"''
   \<and> calcEtag entry_random_dat = ''\"27106c15f45b\"''"
proof -
  have a: "CRC32 entry_1 = 0x27106c15" "CompressedSize64 entry_1 = 0x45b"
    by (simp_all add: entry_1_def)
  have b: "CRC32 entry_random_dat = 0x6c15f45b" "CompressedSize64 entry_random_dat = 0x2710"
    by (simp_all add: entry_random_dat_def)
  have m: "h_m handler_1 (upath_of get_a_dat) = Some entry_1"
    by (simp add: upath_of_get_a_dat handler_1_def)
  obtain w' where s: "ServeHTTP plain_env handler_1 empty_world empty_response get_a_dat
                        = Inr (w', empty_world)"
    using ServeHTTP_get_a_dat by blast
  show ?thesis
    using calcEtag_example [OF a b keeps_Etag_plain_env m s] a b keeps_Etag_plain_env m s
    by simp
qed

section \<open>If-None-Match\<close>

text \<open>
  C6. For every GET request whose \<open>If-None-Match\<close> header equals the ETag computed for
  the requested entry, the handler answers 304 Not Modified, the \<open>Content-Type\<close> and
  \<open>Content-Length\<close> headers are gone from the response, and no byte is added to the body.
\<close>

theorem If_None_Match_304:
  assumes "rMethod r = ''GET''"
    and "h_m h (upath_of r) = Some f"
    and "Header_Get (rHeader r) ''If-None-Match'' = calcEtag f"
  shows "\<exists>w'. ServeHTTP ev h wd w r = Inr (w', wd)
           \<and> wStatus w' = Some 304
           \<and> wHeader w' ''Content-Type'' = None
           \<and> wHeader w' ''Content-Length'' = None
           \<and> wBody w' = wBody w
           \<and> Header_Get (wHeader w') ''Etag'' = calcEtag f"
proof -
  define r1 where "r1 = (if \<not> strings_HasPrefix (rURLPath r) ''/''
               then r\<lparr>rURLPath := ''/'' @ rURLPath r\<rparr> else r)"
  define w1 where "w1 = w\<lparr>wHeader := Header_Set (wHeader w) ''Etag'' (calcEtag f)\<rparr>"
  have r1: "rMethod r1 = ''GET''" "rHeader r1 = rHeader r"
    using assms(1) by (simp_all add: r1_def)
  have e1: "Header_Get (wHeader w1) ''Etag'' = calcEtag f"
    by (simp add: w1_def Header_Set_def Header_Get_def)
  define w2 where "w2 = WriteHeader (w1\<lparr>wHeader := (wHeader w1)(''Content-Type'' := None,
                           ''Content-Length'' := None)\<rparr>) http_StatusNotModified"
  have c: "checkETag ev w1 r1 (ModTime f) = (([], True), w2)"
    using calcEtag_nonempty[of f] assms(3)
    by (simp add: checkETag_def Let_def e1 r1 w2_def)
  have "ServeHTTP ev h wd w r = Inr (w2, wd)"
    using ServeHTTP_found[OF assms(2) c[unfolded w1_def r1_def], of wd] by (simp add: Let_def)
  moreover have "wStatus w2 = Some 304" "wHeader w2 ''Content-Type'' = None"
    "wHeader w2 ''Content-Length'' = None" "wBody w2 = wBody w"
    "Header_Get (wHeader w2) ''Etag'' = calcEtag f"
    by (simp_all add: w2_def w1_def WriteHeader_def http_StatusNotModified_def Header_Set_def
        Header_Get_def)
  ultimately show ?thesis by blast
qed

theorem If_None_Match_304_witness:
  "rMethod get_a_dat_inm = ''GET''
   \<and> h_m handler_1 (upath_of get_a_dat_inm) = Some entry_1
   \<and> Header_Get (rHeader get_a_dat_inm) ''If-None-Match'' = calcEtag entry_1
   \<and> (\<exists>w'. ServeHTTP plain_env handler_1 empty_world empty_response get_a_dat_inm
               = Inr (w', empty_world)
            \<and> wStatus w' = Some 304
            \<and> wHeader w' ''Content-Type'' = None
            \<and> wHeader w' ''Content-Length'' = None
            \<and> wBody w' = []
            \<and> Header_Get (wHeader w') ''Etag'' = ''\"45b27106c15\"'')"
proof -
  have a: "rMethod get_a_dat_inm = ''GET''"
    by (simp add: get_a_dat_inm_def)
  have m: "h_m handler_1 (upath_of get_a_dat_inm) = Some entry_1"
    by (simp add: upath_of_get_a_dat_inm handler_1_def)
  have e: "calcEtag entry_1 = ''\"45b27106c15\"''"
    by (simp add: calcEtag_def entry_1_def fmt_x.simps hexchar_def)
  have i: "Header_Get (rHeader get_a_dat_inm) ''If-None-Match'' = calcEtag entry_1"
    by (simp add: e get_a_dat_inm_def Header_Get_def)
  show ?thesis
    using If_None_Match_304 [OF a m i, of plain_env empty_world empty_response] a m i e
    by (simp add: empty_response_def)
qed

section \<open>The example archive\<close>

lemma path_Clean_examples:
  "path_Clean ''img'' = ''img''" "path_Clean [] = ''.''" "path_Clean ''img/'' = ''img''"
  "path_Clean ''/img'' = ''/img''" "path_Clean ''/img/circle.png'' = ''/img/circle.png''"
  by (simp_all add: path_Clean_def clean_element_def)

lemma parentDirName_examples:
  "parentDirName ''img/'' = ''/''" 
  "parentDirName ''img/circle.png'' = ''img/''"
  "parentDirName ''img/another-circle.png'' = ''img/''"
  by (simp_all add: parentDirName_def strings_TrimRight_def path_Dir_def path_Clean_examples
      strings_HasSuffix_def)

lemma path_Base_examples:
  "path_Base ''img/circle.png'' = ''circle.png''"
  "path_Base ''img/another-circle.png'' = ''another-circle.png''"
  by (simp_all add: path_Base_def strings_TrimRight_def)

lemma name_order_examples:
  "''another-circle.png'' < ''circle.png''" "\<not> ''circle.png'' \<le> ''another-circle.png''"
  by (simp_all add: less_char_def less_eq_char_def)

lemma New_archive_1: "New (Inr archive_1) = Inr (fs_1, heap_1)"
  by (simp add: New_def archive_1_def New_entry_def FindOrCreate_def FindOrCreateParent_def
      parentDirName_examples e_img_def e_circle_def e_another_def strings_TrimRight_def
      New_sort_def sort_Sort_def fileInfo_Name_def path_Base_examples name_order_examples
      fs_1_def fm_1_def heap_1_def Let_def)

section \<open>Stat on a closed handle\<close>

lemma fileReader_Close_fields:
  "fr_closed (snd (fileReader_Close f)) = True"
  "fr_fileInfo (snd (fileReader_Close f)) = fr_fileInfo f"
  "fr_name (snd (fileReader_Close f)) = fr_name f"
  by (simp_all add: fileReader_Close_def Let_def split: prod.splits option.splits)

text \<open>
  C9. \<open>Stat\<close> returns the handle's file info and no error, on an open handle and on one
  that \<open>Close\<close> has been called on; \<open>Read\<close> and \<open>Seek\<close> on the closed handle fail with
  the "file closed" error instead.
\<close>

theorem Stat_not_gated:
  "Stat f = (fr_fileInfo f, None)
   \<and> Stat (snd (fileReader_Close f)) = (fr_fileInfo f, None)
   \<and> fst (Read w (snd (fileReader_Close f)) n)
       = ([], Some (PathError ''Read'' (fr_name f) errFileClosed))
   \<and> fst (Seek w (snd (fileReader_Close f)) offset whence)
       = (0, Some (PathError ''Seek'' (fr_name f) errFileClosed))"
  by (simp add: Stat_def Read_def Seek_def fileReader_Close_fields pathError_def)

section \<open>Open on a closed file system\<close>

lemma Open_after_Close: "Open (snd (Close fs)) name = Open fs name"
  by (simp add: Open_def Close_def Let_def split: option.splits)

text \<open>
  C7 asks that \<open>Open\<close> fail with a Closed error once the file system is closed, and
  \<^verbatim>\<open>TestOpen\<close> asserts it. \<open>Open\<close> only consults the index, which \<open>Close\<close> leaves in place:
  on the example archive, \<open>Open\<close> after \<open>Close\<close> hands out a fresh handle.
\<close>

theorem Open_after_Close_example:
  "New (Inr archive_1) = Inr (fs_1, heap_1)
   \<and> Open (snd (Close fs_1)) ''/img/circle.png''
       = Inr \<lparr>fr_name = ''/img/circle.png'', fr_fileInfo = 2, fr_reader = None, fr_file = None,
              fr_closed = False, fr_readdir = None\<rparr>"
proof -
  have "Open fs_1 ''/img/circle.png''
       = Inr \<lparr>fr_name = ''/img/circle.png'', fr_fileInfo = 2, fr_reader = None, fr_file = None,
              fr_closed = False, fr_readdir = None\<rparr>"
    by (simp add: Open_def path_Clean_examples strings_TrimLeft_def fs_1_def fm_1_def
        openReader_def)
  then show ?thesis using New_archive_1 by (simp add: Open_after_Close)
qed

section \<open>Readdir\<close>

lemma os_ModeDir_bits:
  "(365 OR os_ModeDir) AND os_ModeDir \<noteq> 0" "292 AND os_ModeDir = 0" "os_ModeDir \<noteq> 0"
  by (simp_all add: os_ModeDir_def)

lemma FileMode_IsDir_Mode: "FileMode_IsDir (fileInfo_Mode fi) = fileInfo_IsDir fi"
  by (auto simp: FileMode_IsDir_def fileInfo_Mode_def fileInfo_IsDir_def os_ModeDir_bits
      split: option.splits)

lemma Readdir_EOF:
  assumes "Readdir w f count = ((batch, Some EOF), f1)"
  shows "f1 = f\<lparr>fr_readdir := None\<rparr>"
  using assms
  by (auto simp: Readdir_def pathError_def split: if_splits option.splits sum.splits)

lemma Readdir_fresh:
  assumes "FileMode_IsDir (fileInfo_Mode (heap w ! fr_fileInfo f))"
    and "fr_readdir f = None" and "0 < count"
  shows "Readdir w f count =
     (let v = fi_fileInfos (heap w ! fr_fileInfo f) in
      if int (length v) \<ge> count
      then ((take (nat count) v, None), f\<lparr>fr_readdir := Some (drop (nat count) v)\<rparr>)
      else ((v, Some EOF), f\<lparr>fr_readdir := None\<rparr>))"
  using assms by (simp add: Readdir_def fileInfo_readdir_def Let_def)

text \<open>
  C10. On a directory handle whose \<open>Readdir\<close> with a positive count has just returned
  \<^verbatim>\<open>io.EOF\<close>, the next \<open>Readdir\<close> with a positive count starts again at the first child: it
  returns the first \<open>count2\<close> children (all of them, with \<^verbatim>\<open>io.EOF\<close>, when there are fewer),
  which is not an empty result unless the directory is empty.
\<close>

theorem Readdir_restarts_after_EOF:
  assumes "FileMode_IsDir (fileInfo_Mode (heap w ! fr_fileInfo f))"
    and "0 < count" and "Readdir w f count = ((batch, Some EOF), f1)" and "0 < count2"
  shows "fr_readdir f1 = None
         \<and> fst (fst (Readdir w f1 count2))
             = take (nat count2) (fi_fileInfos (heap w ! fr_fileInfo f))
         \<and> (fi_fileInfos (heap w ! fr_fileInfo f) = [] \<or> fst (fst (Readdir w f1 count2)) \<noteq> [])
         \<and> snd (fst (Readdir w f1 count2))
             = (if int (length (fi_fileInfos (heap w ! fr_fileInfo f))) \<ge> count2
                then None else Some EOF)"
proof -
  have f1: "f1 = f\<lparr>fr_readdir := None\<rparr>" using assms(3) by (rule Readdir_EOF)
  have d: "FileMode_IsDir (fileInfo_Mode (heap w ! fr_fileInfo f1))"
    using assms(1) by (simp add: f1)
  have n: "fr_readdir f1 = None" by (simp add: f1)
  show ?thesis
    using Readdir_fresh[OF d n assms(4)] assms(4) n
    by (auto simp: Let_def f1)
qed

theorem Readdir_restarts_after_EOF_witness:
  "FileMode_IsDir (fileInfo_Mode (heap world_1 ! fr_fileInfo (openReader 0 ''/img'')))
   \<and> (0::int) < 5
   \<and> Readdir world_1 (openReader 0 ''/img'') 5 = (([3, 2], Some EOF), openReader 0 ''/img'')
   \<and> (0::int) < 1
   \<and> fst (fst (Readdir world_1 (openReader 0 ''/img'') 1)) = [3]
   \<and> snd (fst (Readdir world_1 (openReader 0 ''/img'') 1)) = None"
proof -
  have d: "FileMode_IsDir (fileInfo_Mode (heap world_1 ! fr_fileInfo (openReader 0 ''/img'')))"
    by (simp add: FileMode_IsDir_Mode fileInfo_IsDir_def world_1_def heap_1_def openReader_def
        e_img_def)
  have r: "Readdir world_1 (openReader 0 ''/img'') 5
             = (([3, 2], Some EOF), openReader 0 ''/img'')"
    using d by (simp add: Readdir_def fileInfo_readdir_def openReader_def world_1_def heap_1_def)
  have c: "(0::int) < 5" "(0::int) < 1" by simp_all
  show ?thesis
    using Readdir_restarts_after_EOF [OF d c(1) r c(2)] d r
    by (simp add: world_1_def heap_1_def openReader_def)
qed

section \<open>Serving a deflated entry\<close>

lemma decval_snoc: "decval (ds @ [c]) = 10 * decval ds + (of_char c - 48)"
  by (simp add: decval_def)

lemma decdigit_hexchar: "d < 10 \<Longrightarrow> (of_char (hexchar d) :: nat) - 48 = d"
proof -
  assume "d < 10"
  then have "d < 16" by simp
  from lt16_cases[OF this] \<open>d < 10\<close> show ?thesis
    unfolding hexchar_def by (elim disjE) simp_all
qed

lemma decval_fmt_d: "decval (fmt_d n) = n"
proof (induction n rule: fmt_d.induct)
  case (1 n)
  show ?case
  proof (cases "n < 10")
    case True
    then show ?thesis by (subst fmt_d.simps) (simp add: decval_def decdigit_hexchar)
  next
    case False
    then have "decval (fmt_d (n div 10)) = n div 10" using 1 by simp
    then show ?thesis using False
      by (subst fmt_d.simps) (simp add: decval_snoc decdigit_hexchar)
  qed
qed

lemma Write_ok: "wFail w = None \<Longrightarrow> Write w b = Inr (w\<lparr>wBody := wBody w @ b\<rparr>)"
  by (simp add: Write_def)

lemma serveDeflate_loop_copies:
  assumes "wFail w = None" and "0 \<le> remaining" and "0 \<le> offset"
    and "offset + remaining \<le> int (length d)" and "length d < 2 ^ 63"
    and "0 \<le> written" and "written + remaining < 2 ^ 63"
  shows "serveDeflate_loop ev (file_ReadAt d) r w written remaining offset
           = w\<lparr>wBody := wBody w @ take (nat remaining) (drop (nat offset) d)\<rparr>"
  using assms
proof (induction ev "file_ReadAt d" r w written remaining offset rule: serveDeflate_loop.induct)
  case (1 ev r w written remaining offset)
  show ?case
  proof (cases "remaining > 0")
    case False
    then have "remaining = 0" using 1(3) by simp
    then show ?thesis by (subst serveDeflate_loop.simps) simp
  next
    case True
    define size where "size = (if int bufSize > remaining then nat remaining else bufSize)"
    have s1: "0 < size" "int size \<le> remaining"
      using True by (auto simp: size_def bufSize_def)
    define b where "b = take size (drop (nat offset) d)"
    have rd: "file_ReadAt d offset size = Inr b"
      using 1(4,5) s1 by (simp add: file_ReadAt_def b_def)
    define w1 where "w1 = w\<lparr>wBody := wBody w @ b\<rparr>"
    have wr: "Write w b = Inr w1" using 1(2) by (simp add: Write_ok w1_def)
    have i1: "int64 (written + int size) = written + int size"
      using 1(7,8) s1 by (intro int64_id) auto
    have i2: "int64 (remaining - int size) = remaining - int size"
      using 1(3,8,7) s1 by (intro int64_id) auto
    have i3: "int64 (offset + int size) = offset + int size"
      using 1(4,5,6) s1 by (intro int64_id) auto
    have ih: "serveDeflate_loop ev (file_ReadAt d) r w1 (written + int size)
                (remaining - int size) (offset + int size)
              = w1\<lparr>wBody := wBody w1 @ take (nat (remaining - int size))
                                       (drop (nat (offset + int size)) d)\<rparr>"
      using 1(1)[OF True size_def rd wr] 1(2-8) s1 unfolding i1 i2 i3
      by (simp add: w1_def)
    have split: "take size (drop (nat offset) d)
                   @ take (nat (remaining - int size)) (drop (nat (offset + int size)) d)
                 = take (nat remaining) (drop (nat offset) d)"
    proof -
      have "nat remaining = size + nat (remaining - int size)" using s1 by simp
      moreover have "drop (nat (offset + int size)) d = drop size (drop (nat offset) d)"
        using 1(4) by (simp add: nat_add_distrib add.commute)
      ultimately show ?thesis by (simp only: take_add)
    qed
    show ?thesis
      using True rd wr ih split
      by (subst serveDeflate_loop.simps) (simp add: size_def[symmetric] i1 i2 i3 w1_def b_def)
  qed
qed


lemma checkETag_plain:
  assumes "Header_Get (rHeader r) ''Range'' = []"
    and "Header_Get (rHeader r) ''If-None-Match'' \<noteq> Header_Get (wHeader w) ''Etag''"
    and "Header_Get (rHeader r) ''If-None-Match'' \<noteq> ''*''"
  shows "checkETag ev w r t = (([], False), w)"
  using assms by (simp add: checkETag_def Let_def)

lemma int64_uint: "uint (x :: 64 word) < 2 ^ 63 \<Longrightarrow> int64 (uint x) = uint x"
proof (rule int64_id)
  show "- (2 ^ 63) \<le> uint x" by (rule order_trans[of _ 0]) simp_all
qed

lemma ServeHTTP_deflate_whole:
  assumes "rMethod r = ''GET''"
    and "h_m h (upath_of r) = Some f"
    and "Method f = zip_Deflate"
    and "Header_Get (rHeader r) ''Range'' = []"
    and "Header_Get (rHeader r) ''If-None-Match'' \<noteq> calcEtag f"
    and "Header_Get (rHeader r) ''If-None-Match'' \<noteq> ''*''"
  shows "\<exists>r1. rMethod r1 = ''GET'' \<and> rHeader r1 = rHeader r \<and>
      ServeHTTP ev h wd w r =
      (case serveDeflate ev (w\<lparr>wHeader := Header_Set (wHeader w) ''Etag'' (calcEtag f)\<rparr>) r1 f
              (h_readerAt h) of
           Inl err \<Rightarrow> Inl err
         | Inr w3 \<Rightarrow> Inr (w3, wd))"
proof -
  define r1 where "r1 = (if \<not> strings_HasPrefix (rURLPath r) ''/''
               then r\<lparr>rURLPath := ''/'' @ rURLPath r\<rparr> else r)"
  define w1 where "w1 = w\<lparr>wHeader := Header_Set (wHeader w) ''Etag'' (calcEtag f)\<rparr>"
  have r1: "rMethod r1 = ''GET''" "rHeader r1 = rHeader r"
    using assms(1) by (simp_all add: r1_def)
  have e1: "Header_Get (wHeader w1) ''Etag'' = calcEtag f"
    by (simp add: w1_def Header_Set_def Header_Get_def)
  have c: "checkETag ev w1 r1 (ModTime f) = (([], False), w1)"
    using assms(4,5,6) by (intro checkETag_plain) (simp_all add: r1 e1)
  have ns: "Method f \<noteq> zip_Store"
    using assms(3) by (simp add: zip_Store_def zip_Deflate_def)
  have "ServeHTTP ev h wd w r =
      (case serveDeflate ev w1 r1 f (h_readerAt h) of
           Inl err \<Rightarrow> Inl err
         | Inr w3 \<Rightarrow> Inr (w3, wd))"
    using ServeHTTP_found[OF assms(2) c[unfolded w1_def r1_def], of wd] ns assms(3)
    by (simp add: Let_def r1_def w1_def)
  then show ?thesis using r1 unfolding w1_def by blast
qed

lemma serveDeflate_accepts:
  assumes "rMethod r \<noteq> ''HEAD''"
    and acc: "strings_Contains (Header_Get (rHeader r) ''Accept-Encoding'') ''deflate''"
    and "wFail w = None"
    and "DataOffset f = Inr off" and "0 \<le> off"
    and "off + uint (CompressedSize64 f) \<le> int (length bytes)"
    and "length bytes < 2 ^ 63"
  shows "\<exists>w'. serveDeflate ev w r f (Some (file_ReadAt bytes)) = Inr w'
           \<and> wHeader w' ''Content-Encoding'' = Some [''deflate'']
           \<and> wHeader w' ''Content-Length'' = Some [fmt_d (unat (CompressedSize64 f))]
           \<and> wBody w' = wBody w @ take (unat (CompressedSize64 f)) (drop (nat off) bytes)"
proof -
  define w3 where "w3 = setContentType ev w (Name f)
         \<lparr>wHeader := Header_Set (Header_Set (wHeader (setContentType ev w (Name f)))
               ''Content-Encoding'' ''deflate'')
              ''Content-Length'' (fmt_d (unat (CompressedSize64 f)))\<rparr>"
  have w3: "wFail w3 = None" "wBody w3 = wBody w"
    "wHeader w3 ''Content-Encoding'' = Some [''deflate'']"
    "wHeader w3 ''Content-Length'' = Some [fmt_d (unat (CompressedSize64 f))]"
    using assms(3) by (simp_all add: w3_def setContentType_fields Header_Set_def)
  have cs: "uint (CompressedSize64 f) < 2 ^ 63"
    using assms(5,6,7) by simp
  have loop: "serveDeflate_loop ev (file_ReadAt bytes) r w3 0 (uint (CompressedSize64 f)) off
         = w3\<lparr>wBody := wBody w3 @ take (nat (uint (CompressedSize64 f))) (drop (nat off) bytes)\<rparr>"
    using w3(1) assms(5,6,7) cs by (intro serveDeflate_loop_copies) simp_all
  have "serveDeflate ev w r f (Some (file_ReadAt bytes))
          = Inr (serveDeflate_loop ev (file_ReadAt bytes) r w3 0 (uint (CompressedSize64 f)) off)"
    using acc assms(1,4) by (simp add: serveDeflate_def Let_def w3_def int64_uint[OF cs])
  then show ?thesis
    unfolding loop using w3 by simp
qed

lemma serveIdentity_whole:
  assumes "rMethod r \<noteq> ''HEAD''"
    and "wFail w = None"
    and "Opened f = Inr content"
    and "length content = unat (UncompressedSize64 f)"
    and "length content < 2 ^ 63"
  shows "wHeader (serveIdentity ev w r f) ''Content-Encoding'' = None
       \<and> wHeader (serveIdentity ev w r f) ''Content-Length''
            = Some [fmt_d (unat (UncompressedSize64 f))]
       \<and> wBody (serveIdentity ev w r f) = wBody w @ content"
proof -
  have "int (unat (UncompressedSize64 f)) < 2 ^ 63"
    using assms(4,5) by (metis of_nat_less_numeral_power_cancel_iff)
  then have us: "uint (UncompressedSize64 f) < 2 ^ 63" by simp
  have tk: "take (nat (uint (UncompressedSize64 f))) content = content"
    using assms(4) by simp
  show ?thesis
    using assms(1,2,3) tk
    by (simp add: serveIdentity_def zip_Open_def Let_def io_CopyN_def Write_ok int64_uint[OF us]
        setContentType_fields Header_Set_def Header_Del_def)
qed


text \<open>
  C5, amended. A GET request for a deflate-compressed entry, without \<open>Range\<close> and without
  an \<open>If-None-Match\<close> that matches, is served whole. When the first \<open>Accept-Encoding\<close>
  line, the value that \<^verbatim>\<open>Header.Get\<close> returns, contains "deflate", the response has
  \<open>Content-Encoding: deflate\<close>,
  \<open>Content-Length\<close> is the compressed size in decimal, and the body is the compressed size
  in bytes: the raw bytes of the archive at the entry's data offset. Otherwise the
  response has no \<open>Content-Encoding\<close>, \<open>Content-Length\<close> is the uncompressed size and the
  body is the uncompressed content. The archive holds the entry's raw bytes, the entry's
  stream yields as many bytes as its header says, and the connection takes the writes.
\<close>

theorem serve_deflate_entry:
  assumes "rMethod r = ''GET''"
    and "h_m h (upath_of r) = Some f"
    and "Method f = zip_Deflate"
    and "Header_Get (rHeader r) ''Range'' = []"
    and "Header_Get (rHeader r) ''If-None-Match'' \<noteq> calcEtag f"
    and "Header_Get (rHeader r) ''If-None-Match'' \<noteq> ''*''"
    and "wFail w = None"
    and "h_readerAt h = Some (file_ReadAt bytes)"
    and "DataOffset f = Inr off" and "0 \<le> off"
    and "off + uint (CompressedSize64 f) \<le> int (length bytes)"
    and "length bytes < 2 ^ 63"
    and "Opened f = Inr content"
    and "length content = unat (UncompressedSize64 f)"
    and "length content < 2 ^ 63"
  shows "(strings_Contains (Header_Get (rHeader r) ''Accept-Encoding'') ''deflate'' \<longrightarrow>
            (\<exists>w'. ServeHTTP ev h wd w r = Inr (w', wd)
                \<and> wHeader w' ''Content-Encoding'' = Some [''deflate'']
                \<and> wHeader w' ''Content-Length'' = Some [fmt_d (unat (CompressedSize64 f))]
                \<and> decval (fmt_d (unat (CompressedSize64 f))) = unat (CompressedSize64 f)
                \<and> wBody w' = wBody w @ take (unat (CompressedSize64 f)) (drop (nat off) bytes)
                \<and> length (wBody w') = length (wBody w) + unat (CompressedSize64 f)))
       \<and> (\<not> strings_Contains (Header_Get (rHeader r) ''Accept-Encoding'') ''deflate'' \<longrightarrow>
            (\<exists>w'. ServeHTTP ev h wd w r = Inr (w', wd)
                \<and> wHeader w' ''Content-Encoding'' = None
                \<and> wHeader w' ''Content-Length'' = Some [fmt_d (unat (UncompressedSize64 f))]
                \<and> decval (fmt_d (unat (UncompressedSize64 f))) = unat (UncompressedSize64 f)
                \<and> wBody w' = wBody w @ content))"
proof -
  define w1 where "w1 = w\<lparr>wHeader := Header_Set (wHeader w) ''Etag'' (calcEtag f)\<rparr>"
  obtain r1 where r1: "rMethod r1 = ''GET''" "rHeader r1 = rHeader r"
    and serve: "ServeHTTP ev h wd w r =
      (case serveDeflate ev w1 r1 f (h_readerAt h) of
           Inl err \<Rightarrow> Inl err
         | Inr w3 \<Rightarrow> Inr (w3, wd))"
    using ServeHTTP_deflate_whole[OF assms(1-6), of ev wd w] unfolding w1_def by blast
  have nh: "rMethod r1 \<noteq> ''HEAD''" by (simp add: r1)
  have wf1: "wFail w1 = None" "wBody w1 = wBody w"
    using assms(7) by (simp_all add: w1_def)
  show ?thesis
  proof (intro conjI impI)
    assume "strings_Contains (Header_Get (rHeader r) ''Accept-Encoding'') ''deflate''"
    then have acc: "strings_Contains (Header_Get (rHeader r1) ''Accept-Encoding'') ''deflate''"
      by (simp add: r1)
    obtain w' where sd: "serveDeflate ev w1 r1 f (Some (file_ReadAt bytes)) = Inr w'"
      and h: "wHeader w' ''Content-Encoding'' = Some [''deflate'']"
        "wHeader w' ''Content-Length'' = Some [fmt_d (unat (CompressedSize64 f))]"
      and b: "wBody w' = wBody w1 @ take (unat (CompressedSize64 f)) (drop (nat off) bytes)"
      using serveDeflate_accepts[OF nh acc wf1(1) assms(9,10,11,12), of ev] by blast
    have "int (unat (CompressedSize64 f)) = uint (CompressedSize64 f)" by simp
    then have "unat (CompressedSize64 f) + nat off \<le> length bytes"
      using assms(10,11) by linarith
    then have len: "length (take (unat (CompressedSize64 f)) (drop (nat off) bytes))
                 = unat (CompressedSize64 f)"
      by simp
    have s: "ServeHTTP ev h wd w r = Inr (w', wd)"
      unfolding serve assms(8) sd by simp
    have l: "length (wBody w') = length (wBody w) + unat (CompressedSize64 f)"
      unfolding b wf1(2) using len by simp
    show "\<exists>w'. ServeHTTP ev h wd w r = Inr (w', wd)
                \<and> wHeader w' ''Content-Encoding'' = Some [''deflate'']
                \<and> wHeader w' ''Content-Length'' = Some [fmt_d (unat (CompressedSize64 f))]
                \<and> decval (fmt_d (unat (CompressedSize64 f))) = unat (CompressedSize64 f)
                \<and> wBody w' = wBody w @ take (unat (CompressedSize64 f)) (drop (nat off) bytes)
                \<and> length (wBody w') = length (wBody w) + unat (CompressedSize64 f)"
      using s h b[unfolded wf1(2)] l decval_fmt_d[of "unat (CompressedSize64 f)"] by blast
  next
    assume "\<not> strings_Contains (Header_Get (rHeader r) ''Accept-Encoding'') ''deflate''"
    then have nacc: "\<not> strings_Contains (Header_Get (rHeader r1) ''Accept-Encoding'') ''deflate''"
      by (simp add: r1)
    define w' where "w' = serveIdentity ev w1 r1 f"
    have sd: "serveDeflate ev w1 r1 f (h_readerAt h) = Inr w'"
      using nacc by (simp add: serveDeflate_def w'_def)
    have i: "wHeader w' ''Content-Encoding'' = None"
      "wHeader w' ''Content-Length'' = Some [fmt_d (unat (UncompressedSize64 f))]"
      "wBody w' = wBody w1 @ content"
      using serveIdentity_whole[OF nh wf1(1) assms(13,14,15), of ev] unfolding w'_def by simp_all
    have s: "ServeHTTP ev h wd w r = Inr (w', wd)"
      unfolding serve sd by simp
    show "\<exists>w'. ServeHTTP ev h wd w r = Inr (w', wd)
                \<and> wHeader w' ''Content-Encoding'' = None
                \<and> wHeader w' ''Content-Length'' = Some [fmt_d (unat (UncompressedSize64 f))]
                \<and> decval (fmt_d (unat (UncompressedSize64 f))) = unat (UncompressedSize64 f)
                \<and> wBody w' = wBody w @ content"
      using s i(1,2) i(3)[unfolded wf1(2)] decval_fmt_d[of "unat (UncompressedSize64 f)"]
      by blast
  qed
qed

lemma upath_of_circle:
  "upath_of get_circle_deflate = ''/img/circle.png''"
  "upath_of get_circle_gzip = ''/img/circle.png''"
  by (simp_all add: upath_of_def get_circle_deflate_def get_circle_gzip_def strings_HasPrefix_def
      path_Clean_def clean_element_def)

lemma calcEtag_e_circle: "calcEtag e_circle = ''\"3529fb2ff\"''"
  by (simp add: calcEtag_def e_circle_def fmt_x.simps hexchar_def)

theorem serve_deflate_entry_witness:
  "rMethod get_circle_deflate = ''GET'' \<and> rMethod get_circle_gzip = ''GET''
   \<and> h_m handler_2 ''/img/circle.png'' = Some e_circle
   \<and> Method e_circle = zip_Deflate
   \<and> strings_Contains (Header_Get (rHeader get_circle_deflate) ''Accept-Encoding'') ''deflate''
   \<and> \<not> strings_Contains (Header_Get (rHeader get_circle_gzip) ''Accept-Encoding'') ''deflate''
   \<and> (\<exists>w'. ServeHTTP plain_env handler_2 empty_world empty_response get_circle_deflate
               = Inr (w', empty_world)
            \<and> wHeader w' ''Content-Encoding'' = Some [''deflate'']
            \<and> wHeader w' ''Content-Length'' = Some [''3'']
            \<and> wBody w' = [9, 8, 7])
   \<and> (\<exists>w'. ServeHTTP plain_env handler_2 empty_world empty_response get_circle_gzip
               = Inr (w', empty_world)
            \<and> wHeader w' ''Content-Encoding'' = None
            \<and> wHeader w' ''Content-Length'' = Some [''5'']
            \<and> wBody w' = [1, 2, 3, 4, 5])"
proof -
  have g: "rMethod get_circle_deflate = ''GET''" "rMethod get_circle_gzip = ''GET''"
    by (simp_all add: get_circle_deflate_def get_circle_gzip_def)
  have m: "h_m handler_2 ''/img/circle.png'' = Some e_circle"
    by (simp add: handler_2_def)
  have d: "Method e_circle = zip_Deflate"
    by (simp add: e_circle_def zip_Deflate_def)
  have hd: "Header_Get (rHeader get_circle_deflate) ''Range'' = []"
    "Header_Get (rHeader get_circle_deflate) ''If-None-Match'' \<noteq> calcEtag e_circle"
    "Header_Get (rHeader get_circle_deflate) ''If-None-Match'' \<noteq> ''*''"
    by (simp_all add: get_circle_deflate_def Header_Get_def calcEtag_e_circle)
  have hg: "Header_Get (rHeader get_circle_gzip) ''Range'' = []"
    "Header_Get (rHeader get_circle_gzip) ''If-None-Match'' \<noteq> calcEtag e_circle"
    "Header_Get (rHeader get_circle_gzip) ''If-None-Match'' \<noteq> ''*''"
    by (simp_all add: get_circle_gzip_def Header_Get_def calcEtag_e_circle)
  have w: "wFail empty_response = None" by (simp add: empty_response_def)
  have ra: "h_readerAt handler_2 = Some (file_ReadAt (ar_bytes archive_1))"
    by (simp add: handler_2_def)
  have o: "DataOffset e_circle = Inr 2" "(0::int) \<le> 2"
    "2 + uint (CompressedSize64 e_circle) \<le> int (length (ar_bytes archive_1))"
    "length (ar_bytes archive_1) < 2 ^ 63"
    by (simp_all add: e_circle_def archive_1_def)
  have c: "Opened e_circle = Inr [1, 2, 3, 4, 5]"
    "length [1, 2, 3, 4, 5 :: byte] = unat (UncompressedSize64 e_circle)"
    "length [1, 2, 3, 4, 5 :: byte] < 2 ^ 63"
    by (simp_all add: e_circle_def)
  have a: "strings_Contains (Header_Get (rHeader get_circle_deflate) ''Accept-Encoding'') ''deflate''"
    by (simp add: get_circle_deflate_def Header_Get_def strings_HasPrefix_def)
  have n: "\<not> strings_Contains (Header_Get (rHeader get_circle_gzip) ''Accept-Encoding'') ''deflate''"
    by (simp add: get_circle_gzip_def Header_Get_def strings_HasPrefix_def)
  have v: "unat (CompressedSize64 e_circle) = 3" "unat (UncompressedSize64 e_circle) = 5"
    "fmt_d 3 = ''3''" "fmt_d 5 = ''5''"
    by (simp_all add: e_circle_def fmt_d.simps hexchar_def)
  show ?thesis
    using serve_deflate_entry [of get_circle_deflate handler_2 e_circle empty_response
        "ar_bytes archive_1" 2 "[1, 2, 3, 4, 5]" plain_env empty_world,
        OF g(1) m[folded upath_of_circle(1)] d hd w ra o c]
      serve_deflate_entry [of get_circle_gzip handler_2 e_circle empty_response
        "ar_bytes archive_1" 2 "[1, 2, 3, 4, 5]" plain_env empty_world,
        OF g(2) m[folded upath_of_circle(2)] d hg w ra o c]
      a n g m d
    by (auto simp: archive_1_def empty_response_def v)
qed

lemma upath_of_two_lines: "upath_of get_circle_two_lines = ''/img/circle.png''"
  by (simp add: upath_of_def get_circle_two_lines_def strings_HasPrefix_def
      path_Clean_def clean_element_def)

text \<open>
  C5, as stated: whenever the request's \<open>Accept-Encoding\<close> header includes "deflate", the
  raw bytes are served. A request may carry the header on several lines, and
  \<^verbatim>\<open>r.Header.Get\<close> hands \<open>serveDeflate\<close> the first line only: with the lines "gzip" and
  "deflate" the header includes "deflate", yet the response has no \<open>Content-Encoding\<close>
  and its body is the uncompressed content.
\<close>

theorem serve_deflate_entry_counterexample:
  "rMethod get_circle_two_lines = ''GET''
   \<and> h_m handler_2 (upath_of get_circle_two_lines) = Some e_circle
   \<and> Method e_circle = zip_Deflate
   \<and> rHeader get_circle_two_lines ''Range'' = None
   \<and> rHeader get_circle_two_lines ''If-None-Match'' = None
   \<and> rHeader get_circle_two_lines ''If-Range'' = None
   \<and> rHeader get_circle_two_lines ''Accept-Encoding'' = Some [''gzip'', ''deflate'']
   \<and> strings_Contains ''deflate'' ''deflate''
   \<and> (\<exists>w'. ServeHTTP plain_env handler_2 empty_world empty_response get_circle_two_lines
               = Inr (w', empty_world)
            \<and> wHeader w' ''Content-Encoding'' = None
            \<and> wHeader w' ''Content-Length'' = Some [''5'']
            \<and> wBody w' = [1, 2, 3, 4, 5]
            \<and> wBody w' \<noteq> [9, 8, 7])"
proof -
  have g: "rMethod get_circle_two_lines = ''GET''"
    by (simp add: get_circle_two_lines_def)
  have m: "h_m handler_2 (upath_of get_circle_two_lines) = Some e_circle"
    by (simp add: upath_of_two_lines handler_2_def)
  have d: "Method e_circle = zip_Deflate"
    by (simp add: e_circle_def zip_Deflate_def)
  have h: "Header_Get (rHeader get_circle_two_lines) ''Range'' = []"
    "Header_Get (rHeader get_circle_two_lines) ''If-None-Match'' \<noteq> calcEtag e_circle"
    "Header_Get (rHeader get_circle_two_lines) ''If-None-Match'' \<noteq> ''*''"
    by (simp_all add: get_circle_two_lines_def Header_Get_def calcEtag_e_circle)
  have lines: "rHeader get_circle_two_lines ''Range'' = None"
    "rHeader get_circle_two_lines ''If-None-Match'' = None"
    "rHeader get_circle_two_lines ''If-Range'' = None"
    "rHeader get_circle_two_lines ''Accept-Encoding'' = Some [''gzip'', ''deflate'']"
    by (simp_all add: get_circle_two_lines_def)
  have c: "strings_Contains ''deflate'' ''deflate''"
    by (simp add: strings_HasPrefix_def)
  define w1 where
    "w1 = empty_response\<lparr>wHeader := Header_Set (wHeader empty_response) ''Etag''
                                         (calcEtag e_circle)\<rparr>"
  obtain r1 where r1: "rMethod r1 = ''GET''" "rHeader r1 = rHeader get_circle_two_lines"
    and serve: "ServeHTTP plain_env handler_2 empty_world empty_response get_circle_two_lines =
      (case serveDeflate plain_env w1 r1 e_circle (h_readerAt handler_2) of
           Inl err \<Rightarrow> Inl err
         | Inr w3 \<Rightarrow> Inr (w3, empty_world))"
    using ServeHTTP_deflate_whole[OF g m d h, of plain_env empty_world empty_response]
    unfolding w1_def by blast
  have n: "\<not> strings_Contains (Header_Get (rHeader r1) ''Accept-Encoding'') ''deflate''"
    by (simp add: r1 get_circle_two_lines_def Header_Get_def strings_HasPrefix_def)
  have sd: "serveDeflate plain_env w1 r1 e_circle (h_readerAt handler_2)
              = Inr (serveIdentity plain_env w1 r1 e_circle)"
    using n by (simp add: serveDeflate_def)
  have nh: "rMethod r1 \<noteq> ''HEAD''" by (simp add: r1)
  have wf: "wFail w1 = None" "wBody w1 = []" by (simp_all add: w1_def empty_response_def)
  have o: "Opened e_circle = Inr [1, 2, 3, 4, 5]"
    "length [1, 2, 3, 4, 5 :: byte] = unat (UncompressedSize64 e_circle)"
    "length [1, 2, 3, 4, 5 :: byte] < 2 ^ 63"
    by (simp_all add: e_circle_def)
  have v: "fmt_d (unat (UncompressedSize64 e_circle)) = ''5''"
    by (simp add: e_circle_def fmt_d.simps hexchar_def)
  note i = serveIdentity_whole[OF nh wf(1) o, of plain_env]
  have s: "ServeHTTP plain_env handler_2 empty_world empty_response get_circle_two_lines
             = Inr (serveIdentity plain_env w1 r1 e_circle, empty_world)"
    unfolding serve sd by simp
  show ?thesis
    using g m d lines c s i by (simp add: v wf(2))
qed

section \<open>The index after New\<close>

lemma set_AList_update:
  "(k', v') \<in> set (AList.update k v al) \<Longrightarrow> (k', v') \<in> set al \<or> (k' = k \<and> v' = v)"
  by (induction al) (auto split: if_splits)

lemma FindOrCreate_valid:
  assumes "valid_index (hp, fm)" and "FindOrCreate (hp, fm) n = (i, hp1, fm1)"
  shows "valid_index (hp1, fm1) \<and> i < length hp1 \<and> length hp \<le> length hp1"
proof (cases "map_of fm n")
  case (Some j)
  then have "(n, j) \<in> set fm" by (rule map_of_SomeD)
  then have "j < length hp" using assms(1) by (auto simp: valid_index_def)
  then show ?thesis using assms Some by (auto simp: FindOrCreate_def)
next
  case None
  then have r: "i = length hp" "length hp1 = Suc (length hp)"
    using assms(2) by (auto simp: FindOrCreate_def Let_def)
  have "\<And>k j. (k, j) \<in> set fm1 \<Longrightarrow> j < Suc (length hp)"
  proof -
    fix k j assume m: "(k, j) \<in> set fm1"
    have "(k, j) \<in> set fm \<or> j = length hp"
      using m assms(2) None
      by (auto simp: FindOrCreate_def Let_def split: if_splits dest!: set_AList_update)
    then show "j < Suc (length hp)"
      using assms(1) by (auto simp: valid_index_def less_Suc_eq)
  qed
  then show ?thesis using r by (auto simp: valid_index_def)
qed

lemma New_entry_valid:
  assumes "valid_index st"
  shows "valid_index (New_entry st zf)"
proof -
  obtain hp fm where st: "st = (hp, fm)" by (cases st)
  obtain fi hp1 fm1 where a: "FindOrCreate (hp, fm) (Name zf) = (fi, hp1, fm1)"
    by (metis prod_cases3)
  define hp2 where "hp2 = hp1[fi := (hp1 ! fi)\<lparr>fi_zipFile := Some zf\<rparr>]"
  obtain d hp3 fm3 where b: "FindOrCreate (hp2, fm1) (parentDirName (Name zf)) = (d, hp3, fm3)"
    by (metis prod_cases3)
  have v1: "valid_index (hp1, fm1)"
    using FindOrCreate_valid[OF assms[unfolded st] a] by simp
  then have v2: "valid_index (hp2, fm1)" by (simp add: valid_index_def hp2_def)
  have v3: "valid_index (hp3, fm3)" using FindOrCreate_valid[OF v2 b] by simp
  have "New_entry st zf = (hp3[d := (hp3 ! d)\<lparr>fi_fileInfos := fi_fileInfos (hp3 ! d) @ [fi]\<rparr>], fm3)"
    by (simp add: New_entry_def st a FindOrCreateParent_def hp2_def[symmetric] b)
  then show ?thesis using v3 by (simp add: valid_index_def)
qed

lemma foldl_New_entry_valid:
  "valid_index st \<Longrightarrow> valid_index (foldl New_entry st zfs)"
  by (induction zfs arbitrary: st) (simp_all add: New_entry_valid)

lemma New_sort_name: "fi_name (New_sort hp j ! c) = fi_name (hp ! c)"
  by (cases "c = j"; cases "j < length hp") (simp_all add: New_sort_def list_update_beyond)

lemma New_sort_Name: "fileInfo_Name (New_sort hp j ! c) = fileInfo_Name (hp ! c)"
  by (simp add: fileInfo_Name_def New_sort_name)

lemma New_sort_length: "length (New_sort hp j) = length hp"
  by (simp add: New_sort_def)

lemma New_sort_sorts: "j < length hp \<Longrightarrow> sorted_node (New_sort hp j) j"
proof -
  assume j: "j < length hp"
  show ?thesis
  proof (cases "length (fi_fileInfos (hp ! j)) > 1")
    case True
    then have "fi_fileInfos (New_sort hp j ! j) = sort_Sort hp (fi_fileInfos (hp ! j))"
      using j by (simp add: New_sort_def)
    then show ?thesis
      unfolding sorted_node_def New_sort_Name by (simp add: sort_Sort_def)
  next
    case False
    then have "New_sort hp j = hp" by (simp add: New_sort_def)
    moreover have "length (map (\<lambda>c. fileInfo_Name (hp ! c)) (fi_fileInfos (hp ! j))) \<le> 1"
      using False by simp
    ultimately show ?thesis unfolding sorted_node_def by (simp add: sorted01)
  qed
qed

lemma New_sort_keeps: "sorted_node hp i \<Longrightarrow> i < length hp \<Longrightarrow> sorted_node (New_sort hp j) i"
proof (cases "i = j")
  case True
  assume "i < length hp"
  then show ?thesis using True New_sort_sorts by simp
next
  case False
  assume "sorted_node hp i"
  moreover have "New_sort hp j ! i = hp ! i" using False by (simp add: New_sort_def)
  ultimately show ?thesis unfolding sorted_node_def New_sort_Name by simp
qed

lemma foldl_New_sort_length: "length (foldl New_sort hp js) = length hp"
  by (induction js arbitrary: hp) (simp_all add: New_sort_length)

lemma foldl_New_sort_keeps:
  "sorted_node hp i \<Longrightarrow> i < length hp \<Longrightarrow> sorted_node (foldl New_sort hp js) i"
  by (induction js arbitrary: hp) (simp_all add: New_sort_keeps New_sort_length)

lemma foldl_New_sort_sorts:
  "i \<in> set js \<Longrightarrow> i < length hp \<Longrightarrow> sorted_node (foldl New_sort hp js) i"
proof (induction js arbitrary: hp)
  case Nil
  then show ?case by simp
next
  case (Cons j js)
  show ?case
  proof (cases "i = j")
    case True
    then have "sorted_node (New_sort hp j) i" using Cons.prems(2) New_sort_sorts by simp
    then show ?thesis
      using Cons.prems(2) by (simp add: foldl_New_sort_keeps New_sort_length)
  next
    case False
    then have "i \<in> set js" using Cons.prems(1) by simp
    then show ?thesis using Cons.IH[of "New_sort hp j"] Cons.prems(2)
      by (simp add: New_sort_length)
  qed
qed

lemma New_children_sorted:
  assumes "New (Inr ar) = Inr (fs, hp)" and "map_of (fs_fileInfos fs) k = Some i"
  shows "sorted (map (\<lambda>c. fileInfo_Name (hp ! c)) (fi_fileInfos (hp ! i)))"
proof -
  obtain hp0 fm where f: "foldl New_entry ([], []) (ar_File ar) = (hp0, fm)"
    by (cases "foldl New_entry ([], []) (ar_File ar)")
  have fs: "fs_fileInfos fs = fm" and hp: "hp = foldl New_sort hp0 (map snd fm)"
    using assms(1) by (auto simp: New_def f)
  have "valid_index (hp0, fm)"
    using foldl_New_entry_valid[of "([], [])" "ar_File ar"] by (simp add: valid_index_def f)
  moreover have m: "(k, i) \<in> set fm" using assms(2) fs by (auto dest: map_of_SomeD)
  ultimately have "i < length hp0" by (auto simp: valid_index_def)
  moreover have "i \<in> set (map snd fm)" using m by force
  ultimately have "sorted_node hp i" unfolding hp by (intro foldl_New_sort_sorts)
  then show ?thesis by (simp add: sorted_node_def)
qed

section \<open>Listing a directory in batches\<close>

lemma Readdir_positive:
  assumes "FileMode_IsDir (fileInfo_Mode (heap w ! fr_fileInfo f))" and "0 < count"
  shows "Readdir w f count =
     (if int (length (pending w f)) \<ge> count
      then ((take (nat count) (pending w f), None),
            f\<lparr>fr_readdir := Some (drop (nat count) (pending w f))\<rparr>)
      else ((pending w f, Some EOF), f\<lparr>fr_readdir := None\<rparr>))"
  using assms by (simp add: Readdir_def fileInfo_readdir_def pending_def split: option.splits)

lemma Readdir_all_batches:
  assumes "FileMode_IsDir (fileInfo_Mode (heap w ! fr_fileInfo f))" and "0 < c"
    and "length (pending w f) div c < fuel"
  shows "\<exists>batches. Readdir_all fuel w f (int c) = Some (batches, EOF, f\<lparr>fr_readdir := None\<rparr>)
           \<and> concat batches = pending w f
           \<and> length batches = Suc (length (pending w f) div c)
           \<and> (\<forall>b \<in> set (butlast batches). length b = c)
           \<and> last batches = drop (length (pending w f) - length (pending w f) mod c) (pending w f)"
  using assms
proof (induction fuel arbitrary: f)
  case 0
  then show ?case by simp
next
  case (Suc fuel)
  define rest where "rest = pending w f"
  have c: "0 < int c" using Suc.prems(2) by simp
  note rd = Readdir_positive[OF Suc.prems(1) c, folded rest_def]
  show ?case
  proof (cases "c \<le> length rest")
    case False
    then have r: "Readdir w f (int c) = ((rest, Some EOF), f\<lparr>fr_readdir := None\<rparr>)"
      using rd by simp
    have "length rest div c = 0" "length rest mod c = length rest" using False by simp_all
    then show ?thesis using r by (simp add: rest_def[symmetric])
  next
    case True
    define f1 where "f1 = f\<lparr>fr_readdir := Some (drop c rest)\<rparr>"
    have r: "Readdir w f (int c) = ((take c rest, None), f1)"
      using rd True by (simp add: f1_def)
    have p1: "pending w f1 = drop c rest" by (simp add: pending_def f1_def)
    have d1: "FileMode_IsDir (fileInfo_Mode (heap w ! fr_fileInfo f1))"
      using Suc.prems(1) by (simp add: f1_def)
    have dv: "length rest div c = Suc ((length rest - c) div c)"
      using True Suc.prems(2) by (simp add: le_div_geq)
    have md: "length rest mod c = (length rest - c) mod c"
      using True by (simp add: le_mod_geq)
    have fu: "length (pending w f1) div c < fuel"
      using Suc.prems(3) dv by (simp add: p1 rest_def[symmetric])
    obtain bs where ih: "Readdir_all fuel w f1 (int c) = Some (bs, EOF, f1\<lparr>fr_readdir := None\<rparr>)"
      and cc: "concat bs = drop c rest"
      and ln: "length bs = Suc ((length rest - c) div c)"
      and bl: "\<forall>b \<in> set (butlast bs). length b = c"
      and la: "last bs = drop (length rest - c - (length rest - c) mod c) (drop c rest)"
      using Suc.IH[OF d1 Suc.prems(2) fu] unfolding p1 by auto
    have ne: "bs \<noteq> []" using ln by auto
    have ff: "f1\<lparr>fr_readdir := None\<rparr> = f\<lparr>fr_readdir := None\<rparr>" by (simp add: f1_def)
    have tk: "length (take c rest) = c" using True by simp
    have "(length rest - c) mod c \<le> length rest - c" by (rule mod_less_eq_dividend)
    then have "length rest - c - (length rest - c) mod c + c = length rest - length rest mod c"
      using True unfolding md by linarith
    then have dr: "drop (length rest - c - (length rest - c) mod c) (drop c rest)
             = drop (length rest - length rest mod c) rest"
      by (simp only: drop_drop)
    have "Readdir_all (Suc fuel) w f (int c) = Some (take c rest # bs, EOF, f\<lparr>fr_readdir := None\<rparr>)"
      using r ih ff by simp
    moreover have "concat (take c rest # bs) = rest" using cc by simp
    moreover have "length (take c rest # bs) = Suc (length rest div c)" using ln dv by simp
    moreover have "\<forall>b \<in> set (butlast (take c rest # bs)). length b = c"
      using bl ne tk by simp
    moreover have "last (take c rest # bs) = drop (length rest - length rest mod c) rest"
      using la ne dr by simp
    ultimately show ?thesis unfolding rest_def[symmetric] by blast
  qed
qed

lemma Open_Inr:
  assumes "Open fs name = Inr f"
  shows "\<exists>k. map_of (fs_fileInfos fs) k = Some (fr_fileInfo f)"
    and "fr_readdir f = None" and "fr_reader f = None" and "fr_file f = None"
    and "fr_closed f = False"
  using assms by (auto simp: Open_def Let_def openReader_def split: option.splits)

text \<open>
  C4. On a handle that \<open>Open\<close> returns for a directory with N children, \<open>Readdir\<close> called
  with one positive count until it reports an error returns N div count full batches
  without error and then the remaining N mod count children (none, when count divides N)
  together with \<^verbatim>\<open>io.EOF\<close>; the batches in a row are the N children, in the order of their
  base names. A single \<open>Readdir\<close> with a count of zero or less returns all N children and
  no error.
\<close>

theorem Readdir_pagination:
  assumes "New (Inr ar) = Inr (fs, hp)" and "heap w = hp" and "Open fs name = Inr f"
    and "fileInfo_IsDir (hp ! fr_fileInfo f)"
    and "children = fi_fileInfos (hp ! fr_fileInfo f)"
    and "0 < count" and "length children div nat count < fuel" and "c0 \<le> 0"
  shows "\<exists>batches f1. Readdir_all fuel w f count = Some (batches, EOF, f1)
           \<and> concat batches = children
           \<and> length batches = Suc (length children div nat count)
           \<and> (\<forall>b \<in> set (butlast batches). length b = nat count)
           \<and> last batches = drop (length children - length children mod nat count) children
           \<and> sorted (map (\<lambda>i. fileInfo_Name (hp ! i)) (concat batches))
           \<and> Readdir w f c0 = ((children, None), f)"
proof -
  have d: "FileMode_IsDir (fileInfo_Mode (heap w ! fr_fileInfo f))"
    using assms(2,4) by (simp add: FileMode_IsDir_Mode)
  have p: "pending w f = children"
    using Open_Inr(2)[OF assms(3)] assms(2,5) by (simp add: pending_def)
  have c: "0 < nat count" "int (nat count) = count" using assms(6) by simp_all
  obtain batches where b: "Readdir_all fuel w f count = Some (batches, EOF, f\<lparr>fr_readdir := None\<rparr>)"
    "concat batches = children" "length batches = Suc (length children div nat count)"
    "\<forall>b \<in> set (butlast batches). length b = nat count"
    "last batches = drop (length children - length children mod nat count) children"
    using Readdir_all_batches[OF d c(1), of fuel] assms(7) unfolding p c(2) by blast
  obtain k where "map_of (fs_fileInfos fs) k = Some (fr_fileInfo f)"
    using Open_Inr(1)[OF assms(3)] by blast
  then have s: "sorted (map (\<lambda>i. fileInfo_Name (hp ! i)) children)"
    using New_children_sorted[OF assms(1)] assms(5) by simp
  have a: "Readdir w f c0 = ((children, None), f)"
    using assms(8) d assms(2,5) by (simp add: Readdir_def fileInfo_readdir_def)
  show ?thesis using b s a by blast
qed

theorem Readdir_pagination_witness:
  "New (Inr archive_1) = Inr (fs_1, heap_1) \<and> heap world_1 = heap_1
   \<and> Open fs_1 ''/img'' = Inr (openReader 0 ''/img'')
   \<and> fileInfo_IsDir (heap_1 ! fr_fileInfo (openReader 0 ''/img''))
   \<and> fi_fileInfos (heap_1 ! fr_fileInfo (openReader 0 ''/img'')) = [3, 2]
   \<and> Readdir_all 3 world_1 (openReader 0 ''/img'') 1
        = Some ([[3], [2], []], EOF, openReader 0 ''/img'')
   \<and> map (\<lambda>i. fileInfo_Name (heap_1 ! i)) [3, 2] = [''another-circle.png'', ''circle.png'']
   \<and> Readdir world_1 (openReader 0 ''/img'') 0 = (([3, 2], None), openReader 0 ''/img'')"
proof -
  have o: "Open fs_1 ''/img'' = Inr (openReader 0 ''/img'')"
    by (simp add: Open_def path_Clean_examples strings_TrimLeft_def fs_1_def fm_1_def)
  have h: "heap world_1 = heap_1" by (simp add: world_1_def)
  have d: "fileInfo_IsDir (heap_1 ! fr_fileInfo (openReader 0 ''/img''))"
    by (simp add: fileInfo_IsDir_def heap_1_def openReader_def e_img_def)
  have ch: "[3, 2] = fi_fileInfos (heap_1 ! fr_fileInfo (openReader 0 ''/img''))"
    by (simp add: heap_1_def openReader_def)
  have c: "(0::int) < 1" "length [3, 2 :: nat] div nat 1 < 3" "(0::int) \<le> 0" by simp_all
  have n: "map (\<lambda>i. fileInfo_Name (heap_1 ! i)) [3, 2] = [''another-circle.png'', ''circle.png'']"
    by (simp add: heap_1_def fileInfo_Name_def path_Base_examples)
  obtain batches f1 where r: "Readdir_all 3 world_1 (openReader 0 ''/img'') 1 = Some (batches, EOF, f1)"
    and "concat batches = [3, 2]" and "length batches = 3"
    and "Readdir world_1 (openReader 0 ''/img'') 0 = (([3, 2], None), openReader 0 ''/img'')"
    using Readdir_pagination [OF New_archive_1 h o d ch c(1) c(2) c(3)] by auto
  have e: "Readdir_all 3 world_1 (openReader 0 ''/img'') 1
        = Some ([[3], [2], []], EOF, openReader 0 ''/img'')"
    using d
    by (simp add: numeral_3_eq_3 Readdir_def fileInfo_readdir_def FileMode_IsDir_Mode
        world_1_def heap_1_def openReader_def)
  show ?thesis
    using New_archive_1 h o d ch[symmetric] e n
      \<open>Readdir world_1 (openReader 0 ''/img'') 0 = (([3, 2], None), openReader 0 ''/img'')\<close>
    by simp
qed

section \<open>Temporary files that earlier handles left\<close>

text \<open>
  \<open>temp_files_ok\<close> holds of the heap that \<open>New\<close> builds and is kept by every \<open>Seek\<close>: a
  node's temporary file, once there, holds the content of the node's entry.
\<close>

lemma fmt_d_inj: "fmt_d a = fmt_d b \<Longrightarrow> a = b"
  by (metis decval_fmt_d)

lemma tempName_inj: "tempName a = tempName b \<Longrightarrow> a = b"
  by (simp add: tempName_def fmt_d_inj)

lemma temp_files_ok_node:
  assumes "temp_files_ok w" and "i < length (heap w)"
    and "fi_zipFile (heap w ! i) = Some zf" and "Opened zf = Inr data"
  shows "fi_tempPath (heap w ! i) = [] \<or> files w (fi_tempPath (heap w ! i)) = Some data"
  using assms by (fastforce simp: temp_files_ok_def)

lemma createTempFile_result:
  "createTempFile w fo = (res, w1) \<Longrightarrow>
     heap w1 = heap w \<and> tempSeq w \<le> tempSeq w1
     \<and> (\<forall>p. p \<noteq> tempName (tempSeq w) \<longrightarrow> files w1 p = files w p)
     \<and> (\<forall>tf. res = Inr tf \<longrightarrow>
           fpath tf = tempName (tempSeq w) \<and> tempSeq w1 = Suc (tempSeq w)
           \<and> (\<exists>zf d. fo = Some zf \<and> Opened zf = Inr d \<and> files w1 (fpath tf) = Some d))"
  by (auto simp: createTempFile_def zip_Open_def Let_def split: option.splits sum.splits)

lemma openFile_temp_files_ok:
  assumes ok: "temp_files_ok w" and o: "openFile w fi = (res, w1)"
  shows "temp_files_ok w1"
proof (cases "fi_tempPath (heap w ! fi) = []")
  case False
  then have "w1 = w" using o by (simp add: openFile_def)
  then show ?thesis using ok by simp
next
  case True
  obtain r w0 where c: "createTempFile w (fi_zipFile (heap w ! fi)) = (r, w0)"
    by (cases "createTempFile w (fi_zipFile (heap w ! fi))")
  note cr = createTempFile_result[OF c]
  have hp: "heap w0 = heap w" and sq: "tempSeq w \<le> tempSeq w0"
    and fl: "\<And>p. p \<noteq> tempName (tempSeq w) \<Longrightarrow> files w0 p = files w p"
    using cr by auto
  have ok0: "temp_files_ok w0"
    unfolding temp_files_ok_def hp
  proof (intro allI impI)
    fix i assume i: "i < length (heap w)" and t: "fi_tempPath (heap w ! i) \<noteq> []"
    obtain zf d n where z: "fi_zipFile (heap w ! i) = Some zf" "Opened zf = Inr d"
      "files w (fi_tempPath (heap w ! i)) = Some d" "n < tempSeq w"
      "fi_tempPath (heap w ! i) = tempName n"
      using ok i t unfolding temp_files_ok_def by blast
    have "tempName n \<noteq> tempName (tempSeq w)" using z(4) tempName_inj by blast
    then have "files w0 (fi_tempPath (heap w ! i)) = Some d" using fl z(3,5) by simp
    then show "\<exists>zf d n. fi_zipFile (heap w ! i) = Some zf \<and> Opened zf = Inr d
         \<and> files w0 (fi_tempPath (heap w ! i)) = Some d \<and> n < tempSeq w0
         \<and> fi_tempPath (heap w ! i) = tempName n"
      using z sq by (metis less_le_trans)
  qed
  show ?thesis
  proof (cases r)
    case (Inl err)
    then have "w1 = w0" using o True c by (simp add: openFile_def)
    then show ?thesis using ok0 by simp
  next
    case (Inr tf)
    then have w1: "w1 = w0\<lparr>heap := (heap w0)[fi := (heap w0 ! fi)\<lparr>fi_tempPath := fpath tf\<rparr>]\<rparr>"
      using o True c by (simp add: openFile_def)
    obtain zf d where tf: "fpath tf = tempName (tempSeq w)" "tempSeq w0 = Suc (tempSeq w)"
      "fi_zipFile (heap w ! fi) = Some zf" "Opened zf = Inr d" "files w0 (fpath tf) = Some d"
      using cr Inr by auto
    show ?thesis
      unfolding temp_files_ok_def
    proof (intro allI impI)
      fix i assume i: "i < length (heap w1)" and t: "fi_tempPath (heap w1 ! i) \<noteq> []"
      have il: "i < length (heap w)" using i by (simp add: w1 hp)
      show "\<exists>zf d n. fi_zipFile (heap w1 ! i) = Some zf \<and> Opened zf = Inr d
         \<and> files w1 (fi_tempPath (heap w1 ! i)) = Some d \<and> n < tempSeq w1
         \<and> fi_tempPath (heap w1 ! i) = tempName n"
      proof (cases "i = fi")
        case True
        then have "heap w1 ! i = (heap w ! fi)\<lparr>fi_tempPath := fpath tf\<rparr>"
          using il by (simp add: w1 hp)
        then show ?thesis using tf by (auto simp: w1)
      next
        case False
        then have e: "heap w1 ! i = heap w0 ! i" by (simp add: w1)
        then have "fi_tempPath (heap w0 ! i) \<noteq> []" using t by simp
        then show ?thesis
          using ok0 il unfolding temp_files_ok_def hp e by (simp add: w1 hp)
      qed
    qed
  qed
qed

lemma Seek_temp_files_ok:
  assumes "temp_files_ok w" and "Seek w f offset whence = (res, f1, w1)"
  shows "temp_files_ok w1"
proof -
  have "w1 = w \<or> (\<exists>r. openFile w (fr_fileInfo f) = (r, w1))"
    using assms(2)
    by (auto simp: Seek_def stream_Close_def Let_def
        split: if_splits option.splits prod.splits sum.splits)
  then show ?thesis using assms(1) openFile_temp_files_ok by blast
qed

lemma FindOrCreate_tempPath:
  assumes "\<forall>fi \<in> set hp. fi_tempPath fi = []" and "FindOrCreate (hp, fm) n = (i, hp1, fm1)"
  shows "\<forall>fi \<in> set hp1. fi_tempPath fi = []"
  using assms by (auto simp: FindOrCreate_def Let_def split: option.splits)

lemma list_update_tempPath:
  assumes "\<forall>fi \<in> set hp. fi_tempPath fi = []" and "fi_tempPath x = []"
  shows "\<forall>fi \<in> set (hp[i := x]). fi_tempPath fi = []"
  using assms by (metis insert_iff set_update_subset_insert subsetD)

lemma New_entry_tempPath:
  assumes "\<forall>fi \<in> set (fst st). fi_tempPath fi = []"
  shows "\<forall>fi \<in> set (fst (New_entry st zf)). fi_tempPath fi = []"
proof -
  obtain hp fm where st: "st = (hp, fm)" by (cases st)
  obtain fi hp1 fm1 where a: "FindOrCreate (hp, fm) (Name zf) = (fi, hp1, fm1)"
    by (metis prod_cases3)
  define hp2 where "hp2 = hp1[fi := (hp1 ! fi)\<lparr>fi_zipFile := Some zf\<rparr>]"
  obtain d hp3 fm3 where b: "FindOrCreate (hp2, fm1) (parentDirName (Name zf)) = (d, hp3, fm3)"
    by (metis prod_cases3)
  define hp4 where "hp4 = hp3[d := (hp3 ! d)\<lparr>fi_fileInfos := fi_fileInfos (hp3 ! d) @ [fi]\<rparr>]"
  have e: "New_entry st zf = (hp4, fm3)"
    by (simp add: New_entry_def st a FindOrCreateParent_def hp2_def[symmetric] b hp4_def)
  have t1: "\<forall>fi \<in> set hp1. fi_tempPath fi = []"
    using FindOrCreate_tempPath[OF _ a] assms st by simp
  have t2: "\<forall>fi \<in> set hp2. fi_tempPath fi = []"
  proof (cases "fi < length hp1")
    case True
    then have "fi_tempPath ((hp1 ! fi)\<lparr>fi_zipFile := Some zf\<rparr>) = []" using t1 by simp
    then show ?thesis unfolding hp2_def using t1 by (rule list_update_tempPath[rotated])
  next
    case False
    then show ?thesis using t1 by (simp add: hp2_def list_update_beyond)
  qed
  have t3: "\<forall>fi \<in> set hp3. fi_tempPath fi = []"
    using FindOrCreate_tempPath[OF t2 b] .
  have t4: "\<forall>fi \<in> set hp4. fi_tempPath fi = []"
  proof (cases "d < length hp3")
    case True
    then have "fi_tempPath ((hp3 ! d)\<lparr>fi_fileInfos := fi_fileInfos (hp3 ! d) @ [fi]\<rparr>) = []"
      using t3 by simp
    then show ?thesis unfolding hp4_def using t3 by (rule list_update_tempPath[rotated])
  next
    case False
    then show ?thesis using t3 by (simp add: hp4_def list_update_beyond)
  qed
  show ?thesis using t4 e by simp
qed

lemma foldl_New_entry_tempPath:
  "\<forall>fi \<in> set (fst st). fi_tempPath fi = [] \<Longrightarrow>
   \<forall>fi \<in> set (fst (foldl New_entry st zfs)). fi_tempPath fi = []"
proof (induction zfs arbitrary: st)
  case Nil
  then show ?case by simp
next
  case (Cons zf zfs)
  have "\<forall>fi \<in> set (fst (New_entry st zf)). fi_tempPath fi = []"
    using Cons.prems by (rule New_entry_tempPath)
  then have "\<forall>fi \<in> set (fst (foldl New_entry (New_entry st zf) zfs)). fi_tempPath fi = []"
    by (rule Cons.IH)
  then show ?case by simp
qed

lemma New_sort_tempPath:
  assumes "\<forall>fi \<in> set hp. fi_tempPath fi = []"
  shows "\<forall>fi \<in> set (New_sort hp j). fi_tempPath fi = []"
proof (cases "j < length hp \<and> length (fi_fileInfos (hp ! j)) > 1")
  case True
  then have "fi_tempPath ((hp ! j)\<lparr>fi_fileInfos := sort_Sort hp (fi_fileInfos (hp ! j))\<rparr>) = []"
    using assms by simp
  then have "\<forall>fi \<in> set (hp[j := (hp ! j)\<lparr>fi_fileInfos := sort_Sort hp (fi_fileInfos (hp ! j))\<rparr>]).
               fi_tempPath fi = []"
    using assms by (rule list_update_tempPath[rotated])
  then show ?thesis using True by (simp add: New_sort_def)
next
  case False
  then show ?thesis using assms by (auto simp: New_sort_def list_update_beyond)
qed

lemma foldl_New_sort_tempPath:
  "\<forall>fi \<in> set hp. fi_tempPath fi = [] \<Longrightarrow> \<forall>fi \<in> set (foldl New_sort hp js). fi_tempPath fi = []"
proof (induction js arbitrary: hp)
  case Nil
  then show ?case by simp
next
  case (Cons j js)
  have "\<forall>fi \<in> set (New_sort hp j). fi_tempPath fi = []"
    using Cons.prems by (rule New_sort_tempPath)
  then have "\<forall>fi \<in> set (foldl New_sort (New_sort hp j) js). fi_tempPath fi = []"
    by (rule Cons.IH)
  then show ?case by simp
qed

lemma New_temp_files_ok:
  assumes "New (Inr ar) = Inr (fs, hp)" and "heap w = hp"
  shows "temp_files_ok w"
proof -
  obtain hp0 fm where f: "foldl New_entry ([], []) (ar_File ar) = (hp0, fm)"
    by (cases "foldl New_entry ([], []) (ar_File ar)")
  have hp: "hp = foldl New_sort hp0 (map snd fm)"
    using assms(1) by (auto simp: New_def f)
  have "\<forall>fi \<in> set (fst (foldl New_entry ([], []) (ar_File ar))). fi_tempPath fi = []"
    by (rule foldl_New_entry_tempPath) simp
  then have "\<forall>fi \<in> set hp0. fi_tempPath fi = []" by (simp add: f)
  then have "\<forall>fi \<in> set hp. fi_tempPath fi = []" unfolding hp by (rule foldl_New_sort_tempPath)
  then show ?thesis using assms(2) by (simp add: temp_files_ok_def)
qed

section \<open>Reading, seeking and reading again\<close>

lemma read_at_end: "0 < n \<Longrightarrow> length d \<le> pos \<Longrightarrow> read_at d pos n = (([], Some EOF), pos)"
  by (simp add: read_at_def)

lemma read_at_more:
  "0 < n \<Longrightarrow> pos < length d \<Longrightarrow>
   read_at d pos n = ((take n (drop pos d), None), pos + min n (length d - pos))"
  by (simp add: read_at_def min_def)

lemma take_drop_step:
  "take n (drop pos d) @ drop (pos + min n (length d - pos)) d = drop pos d"
proof -
  have "drop (pos + min n (length d - pos)) d = drop (min n (length (drop pos d))) (drop pos d)"
    by (simp add: add.commute)
  also have "\<dots> = drop n (drop pos d)"
    by (cases "n \<le> length (drop pos d)") (simp_all add: min_def)
  finally have "drop (pos + min n (length d - pos)) d = drop n (drop pos d)" .
  then show ?thesis by (simp only: append_take_drop_id)
qed

lemma readAll_stream:
  assumes "fr_closed f = False" and "fr_file f = None" and "fr_reader f = Some r"
    and "sclosed r = False" and "0 < k" and "length (sdata r) - spos r < fuel"
  shows "\<exists>f1. readAll fuel w f k = Some ((drop (spos r) (sdata r), EOF), f1)
           \<and> fr_closed f1 = False \<and> fr_file f1 = None \<and> fr_fileInfo f1 = fr_fileInfo f
           \<and> fr_name f1 = fr_name f"
  using assms
proof (induction fuel arbitrary: f r)
  case 0
  then show ?case by simp
next
  case (Suc fuel)
  show ?case
  proof (cases "spos r < length (sdata r)")
    case False
    then have "Read w f k = (([], Some EOF), f\<lparr>fr_reader := Some r\<rparr>)"
      using Suc.prems by (simp add: Read_def stream_Read_def read_at_end)
    then show ?thesis using False Suc.prems by simp
  next
    case True
    define r1 where "r1 = r\<lparr>spos := spos r + min k (length (sdata r) - spos r)\<rparr>"
    define f1 where "f1 = f\<lparr>fr_reader := Some r1\<rparr>"
    have rd: "Read w f k = ((take k (drop (spos r) (sdata r)), None), f1)"
      using Suc.prems True by (simp add: Read_def stream_Read_def read_at_more f1_def r1_def)
    have p: "fr_closed f1 = False" "fr_file f1 = None" "fr_reader f1 = Some r1" "sclosed r1 = False"
      using Suc.prems by (simp_all add: f1_def r1_def)
    have fu: "length (sdata r1) - spos r1 < fuel"
      using Suc.prems(5,6) True by (auto simp: r1_def min_def)
    obtain f2 where ih: "readAll fuel w f1 k = Some ((drop (spos r1) (sdata r1), EOF), f2)"
      and q: "fr_closed f2 = False" "fr_file f2 = None" "fr_fileInfo f2 = fr_fileInfo f1"
        "fr_name f2 = fr_name f1"
      using Suc.IH[OF p Suc.prems(5) fu] by blast
    have "readAll (Suc fuel) w f k
            = Some ((take k (drop (spos r) (sdata r)) @ drop (spos r1) (sdata r1), EOF), f2)"
      using rd ih by simp
    moreover have "take k (drop (spos r) (sdata r)) @ drop (spos r1) (sdata r1)
                     = drop (spos r) (sdata r)"
      by (simp add: r1_def take_drop_step)
    ultimately show ?thesis using q by (simp add: f1_def)
  qed
qed

lemma readAll_fresh:
  assumes "fr_closed f = False" and "fr_file f = None" and "fr_reader f = None"
    and "fi_zipFile (heap w ! fr_fileInfo f) = Some zf" and "Opened zf = Inr data"
    and "0 < k" and "length data < fuel"
  shows "\<exists>f1. readAll fuel w f k = Some ((data, EOF), f1)
           \<and> fr_closed f1 = False \<and> fr_file f1 = None \<and> fr_fileInfo f1 = fr_fileInfo f
           \<and> fr_name f1 = fr_name f"
proof -
  define r where "r = \<lparr>sdata = data, spos = 0, sclosed = False, smethod = Method zf\<rparr>"
  define g where "g = f\<lparr>fr_reader := Some r\<rparr>"
  have "Read w f k = Read w g k"
    using assms(1-5) by (simp add: Read_def zip_Open_def g_def r_def)
  then have e: "readAll fuel w f k = readAll fuel w g k"
    by (cases fuel) simp_all
  have "\<exists>f1. readAll fuel w g k = Some ((drop (spos r) (sdata r), EOF), f1)
           \<and> fr_closed f1 = False \<and> fr_file f1 = None \<and> fr_fileInfo f1 = fr_fileInfo g
           \<and> fr_name f1 = fr_name g"
    using assms(1,2,6,7) by (intro readAll_stream) (simp_all add: g_def r_def)
  then show ?thesis unfolding e by (simp add: g_def r_def)
qed

lemma readAll_file:
  assumes "fr_closed f = False" and "fr_file f = Some fl" and "fclosed fl = False"
    and "files w (fpath fl) = Some d" and "0 < k" and "length d - fpos fl < fuel"
  shows "\<exists>f1. readAll fuel w f k = Some ((drop (fpos fl) d, EOF), f1)"
  using assms
proof (induction fuel arbitrary: f fl)
  case 0
  then show ?case by simp
next
  case (Suc fuel)
  show ?case
  proof (cases "fpos fl < length d")
    case False
    then have "Read w f k = (([], Some EOF), f\<lparr>fr_file := Some fl\<rparr>)"
      using Suc.prems by (simp add: Read_def file_Read_def read_at_end)
    then show ?thesis using False by simp
  next
    case True
    define fl1 where "fl1 = fl\<lparr>fpos := fpos fl + min k (length d - fpos fl)\<rparr>"
    define f1 where "f1 = f\<lparr>fr_file := Some fl1\<rparr>"
    have rd: "Read w f k = ((take k (drop (fpos fl) d), None), f1)"
      using Suc.prems True by (simp add: Read_def file_Read_def read_at_more f1_def fl1_def)
    have p: "fr_closed f1 = False" "fr_file f1 = Some fl1" "fclosed fl1 = False"
      "files w (fpath fl1) = Some d"
      using Suc.prems by (simp_all add: f1_def fl1_def)
    have fu: "length d - fpos fl1 < fuel"
      using Suc.prems(5,6) True by (auto simp: fl1_def min_def)
    obtain f2 where ih: "readAll fuel w f1 k = Some ((drop (fpos fl1) d, EOF), f2)"
      using Suc.IH[OF p Suc.prems(5) fu] by blast
    have "readAll (Suc fuel) w f k
            = Some ((take k (drop (fpos fl) d) @ drop (fpos fl1) d, EOF), f2)"
      using rd ih by simp
    moreover have "take k (drop (fpos fl) d) @ drop (fpos fl1) d = drop (fpos fl) d"
      by (simp add: fl1_def take_drop_step)
    ultimately show ?thesis by simp
  qed
qed


lemma openFile_ok:
  assumes "fi_zipFile (heap w ! fi) = Some zf" and "Opened zf = Inr data"
    and "fi_tempPath (heap w ! fi) = [] \<or> files w (fi_tempPath (heap w ! fi)) = Some data"
    and "tempFileErr w = None" and "copyErr w = None" and "seekErr w = None"
  shows "\<exists>fl w1. openFile w fi = (Inr fl, w1) \<and> fclosed fl = False \<and> fpos fl = 0
           \<and> files w1 (fpath fl) = Some data"
proof (cases "fi_tempPath (heap w ! fi) = []")
  case True
  then show ?thesis
    using assms(1,2,4,5,6)
    by (simp add: openFile_def createTempFile_def zip_Open_def Let_def)
next
  case False
  then have "files w (fi_tempPath (heap w ! fi)) = Some data" using assms(3) by simp
  then show ?thesis using False by (simp add: openFile_def os_Open_def)
qed

lemma Seek_start:
  assumes "fr_closed f = False" and "fr_file f = None"
    and "fi_zipFile (heap w ! fr_fileInfo f) = Some zf" and "Opened zf = Inr data"
    and "fi_tempPath (heap w ! fr_fileInfo f) = []
         \<or> files w (fi_tempPath (heap w ! fr_fileInfo f)) = Some data"
    and "tempFileErr w = None" and "copyErr w = None" and "seekErr w = None"
  shows "\<exists>f2 w2 fl. Seek w f 0 0 = ((0, None), f2, w2) \<and> fr_closed f2 = False
           \<and> fr_file f2 = Some fl \<and> fclosed fl = False \<and> fpos fl = 0
           \<and> files w2 (fpath fl) = Some data"
proof -
  define f1 where "f1 = (case fr_reader f of
        Some r \<Rightarrow> f\<lparr>fr_reader := Some (snd (stream_Close r))\<rparr> | None \<Rightarrow> f)"
  have f1: "fr_closed f1 = False" "fr_file f1 = None" "fr_fileInfo f1 = fr_fileInfo f"
    using assms(1,2) by (simp_all add: f1_def split: option.splits)
  obtain fl w1 where o: "openFile w (fr_fileInfo f) = (Inr fl, w1)"
    and fl: "fclosed fl = False" "fpos fl = 0" "files w1 (fpath fl) = Some data"
    using openFile_ok[OF assms(3-8)] by blast
  have fs: "file_Seek w1 fl 0 0 = ((0, None), fl\<lparr>fpos := 0\<rparr>)"
    using fl by (simp add: file_Seek_def)
  have "Seek w f 0 0 = ((0, None), f1\<lparr>fr_file := Some (fl\<lparr>fpos := 0\<rparr>)\<rparr>, w1)"
    using assms(1,2) o fs
    by (simp add: Seek_def stream_Close_def f1_def split: option.splits)
  then show ?thesis using f1 fl by simp
qed

text \<open>
  C3. On a handle that \<open>Open\<close> returns for a non-directory entry, reading to the end, then
  \<open>Seek(0, 0)\<close>, then reading to the end again yields the same bytes both times: the
  entry's content. The entry can be opened, the temporary file can be written, and a
  temporary file that an earlier handle left for the entry holds the entry's content
  (\<open>temp_files_ok_node\<close>).
\<close>

theorem read_seek_read:
  assumes "Open fs name = Inr f"
    and "fi_zipFile (heap w ! fr_fileInfo f) = Some zf" and "\<not> ModeIsDir zf"
    and "Opened zf = Inr data"
    and "fi_tempPath (heap w ! fr_fileInfo f) = []
         \<or> files w (fi_tempPath (heap w ! fr_fileInfo f)) = Some data"
    and "tempFileErr w = None" and "copyErr w = None" and "seekErr w = None"
    and "0 < k" and "length data < fuel"
  shows "\<exists>f1 f2 w2 f3. readAll fuel w f k = Some ((data, EOF), f1)
           \<and> Seek w f1 0 0 = ((0, None), f2, w2)
           \<and> readAll fuel w2 f2 k = Some ((data, EOF), f3)"
proof -
  note o = Open_Inr[OF assms(1)]
  obtain f1 where r1: "readAll fuel w f k = Some ((data, EOF), f1)"
    and f1: "fr_closed f1 = False" "fr_file f1 = None" "fr_fileInfo f1 = fr_fileInfo f"
    using readAll_fresh[OF o(5,4,3) assms(2,4,9,10)] by blast
  obtain f2 w2 fl where s: "Seek w f1 0 0 = ((0, None), f2, w2)"
    and f2: "fr_closed f2 = False" "fr_file f2 = Some fl" "fclosed fl = False" "fpos fl = 0"
      "files w2 (fpath fl) = Some data"
    using Seek_start[OF f1(1,2) assms(2,4,5,6,7,8)[folded f1(3)]] by blast
  have "length data - fpos fl < fuel" using assms(10) f2(4) by simp
  then obtain f3 where "readAll fuel w2 f2 k = Some ((drop (fpos fl) data, EOF), f3)"
    using readAll_file[OF f2(1,2,3,5) assms(9)] by blast
  then show ?thesis using r1 s f2(4) by simp
qed


theorem read_seek_read_witness:
  "Open fs_1 ''/img/circle.png'' = Inr (openReader 2 ''/img/circle.png'')
   \<and> fi_zipFile (heap world_1 ! 2) = Some e_circle \<and> \<not> ModeIsDir e_circle
   \<and> Opened e_circle = Inr [1, 2, 3, 4, 5]
   \<and> fi_tempPath (heap world_1 ! 2) = []
   \<and> (\<exists>f1 f2 w2 f3.
         readAll 6 world_1 (openReader 2 ''/img/circle.png'') 2 = Some (([1, 2, 3, 4, 5], EOF), f1)
         \<and> Seek world_1 f1 0 0 = ((0, None), f2, w2)
         \<and> readAll 6 w2 f2 2 = Some (([1, 2, 3, 4, 5], EOF), f3))"
proof -
  define f where "f = openReader 2 ''/img/circle.png''"
  have o: "Open fs_1 ''/img/circle.png'' = Inr f"
    by (simp add: Open_def path_Clean_examples strings_TrimLeft_def fs_1_def fm_1_def f_def)
  have z: "fi_zipFile (heap world_1 ! fr_fileInfo f) = Some e_circle"
    by (simp add: world_1_def heap_1_def f_def openReader_def)
  have d: "\<not> ModeIsDir e_circle" "Opened e_circle = Inr [1, 2, 3, 4, 5]"
    by (simp_all add: e_circle_def)
  have t: "fi_tempPath (heap world_1 ! fr_fileInfo f) = []"
    by (simp add: world_1_def heap_1_def f_def openReader_def)
  have e: "tempFileErr world_1 = None" "copyErr world_1 = None" "seekErr world_1 = None"
    by (simp_all add: world_1_def empty_world_def)
  have k: "(0::nat) < 2" "length [1, 2, 3, 4, 5 :: byte] < 6" by simp_all
  have i: "fr_fileInfo f = 2" by (simp add: f_def openReader_def)
  show ?thesis
    using read_seek_read [OF o z d disjI1[OF t] e k] o z[unfolded i] d t[unfolded i]
    unfolding f_def by blast
qed

section \<open>Trailing slashes\<close>

lemma HasSuffix_slash: "strings_HasSuffix s ''/'' \<longleftrightarrow> s \<noteq> [] \<and> last s = CHR ''/''"
proof (cases s rule: rev_cases)
  case Nil
  then show ?thesis by (simp add: strings_HasSuffix_def)
next
  case (snoc t c)
  then show ?thesis by (auto simp: strings_HasSuffix_def)
qed

lemma HasSuffix_slash2:
  "strings_HasSuffix s ''//'' \<longleftrightarrow> (\<exists>t. s = t @ ''//'')"
proof
  assume "strings_HasSuffix s ''//''"
  then have "s = take (length s - 2) s @ ''//''"
    by (metis append_take_drop_id length_Cons list.size(3) numeral_2_eq_2 strings_HasSuffix_def)
  then show "\<exists>t. s = t @ ''//''" by blast
next
  assume "\<exists>t. s = t @ ''//''"
  then show "strings_HasSuffix s ''//''" by (auto simp: strings_HasSuffix_def)
qed

lemma TrimRight_snoc:
  "strings_TrimRight (t @ [c]) ''/'' = (if c = CHR ''/'' then strings_TrimRight t ''/'' else t @ [c])"
  by (simp add: strings_TrimRight_def)

lemma TrimRight_no_slash: "\<not> strings_HasSuffix (strings_TrimRight s ''/'') ''/''"
proof (induction s rule: rev_induct)
  case Nil
  then show ?case by (simp add: strings_TrimRight_def strings_HasSuffix_def)
next
  case (snoc c t)
  then show ?case by (simp add: TrimRight_snoc HasSuffix_slash)
qed

lemma TrimRight_id: "\<not> strings_HasSuffix s ''/'' \<Longrightarrow> strings_TrimRight s ''/'' = s"
  by (cases s rule: rev_cases) (auto simp: TrimRight_snoc HasSuffix_slash strings_TrimRight_def)

lemma TrimRight_id_iff: "strings_TrimRight s ''/'' = s \<longleftrightarrow> \<not> strings_HasSuffix s ''/''"
  using TrimRight_id TrimRight_no_slash by metis

lemma TrimRight_one_slash:
  "\<not> strings_HasSuffix t ''/'' \<Longrightarrow> strings_TrimRight (t @ ''/'') ''/'' = t"
  by (simp add: TrimRight_snoc TrimRight_id)

lemma one_slash_form:
  assumes "strings_HasSuffix m ''/''" and "\<not> strings_HasSuffix m ''//''"
  shows "\<exists>t. m = t @ ''/'' \<and> \<not> strings_HasSuffix t ''/''"
proof -
  obtain t where t: "m = t @ ''/''"
    using assms(1) by (metis HasSuffix_slash append_butlast_last_id)
  have "\<not> strings_HasSuffix t ''/''"
  proof
    assume "strings_HasSuffix t ''/''"
    then obtain u where "t = u @ ''/''" by (metis HasSuffix_slash append_butlast_last_id)
    then have "m = u @ ''//''" using t by simp
    then show False using assms(2) HasSuffix_slash2 by blast
  qed
  then show ?thesis using t by blast
qed

lemma split_slash_nonempty: "split_slash s \<noteq> []"
  by (induction s) (auto split: list.splits)

lemma split_slash_no_slash: "e \<in> set (split_slash s) \<Longrightarrow> CHR ''/'' \<notin> set e"
proof (induction s arbitrary: e)
  case Nil
  then show ?case by simp
next
  case (Cons c s)
  show ?case
  proof (cases "c = CHR ''/''")
    case True
    then show ?thesis using Cons by auto
  next
    case False
    obtain y ys where y: "split_slash s = y # ys"
      using split_slash_nonempty[of s] by (cases "split_slash s") auto
    then have "e = c # y \<or> e \<in> set ys" using Cons.prems False by simp
    then show ?thesis using Cons.IH[of y] Cons.IH[of e] y False by auto
  qed
qed

lemma clean_element_plain:
  "plain_elements stack \<Longrightarrow> CHR ''/'' \<notin> set e \<Longrightarrow> plain_elements (clean_element rooted stack e)"
  by (auto simp: clean_element_def plain_elements_def split: list.splits)

lemma foldl_clean_element_plain:
  "plain_elements stack \<Longrightarrow> (\<forall>e \<in> set es. CHR ''/'' \<notin> set e) \<Longrightarrow>
   plain_elements (foldl (clean_element rooted) stack es)"
  by (induction es arbitrary: stack) (simp_all add: clean_element_plain)

lemma join_slash_last:
  "es \<noteq> [] \<Longrightarrow> plain_elements es \<Longrightarrow> join_slash es \<noteq> [] \<and> last (join_slash es) \<noteq> CHR ''/''"
proof (induction es rule: join_slash.induct)
  case 1
  then show ?case by simp
next
  case (2 e)
  then have e: "e \<noteq> []" "CHR ''/'' \<notin> set e" by (auto simp: plain_elements_def)
  then have "last e \<in> set e" by simp
  then have "last e \<noteq> CHR ''/''" using e(2) by metis
  then show ?case using e(1) by simp
next
  case (3 e v va)
  then show ?case by (auto simp: plain_elements_def)
qed

lemma path_Clean_last:
  "path_Clean p = ''/'' \<or> (path_Clean p \<noteq> [] \<and> last (path_Clean p) \<noteq> CHR ''/'')"
proof (cases "p = []")
  case True
  then show ?thesis by (simp add: path_Clean_def)
next
  case False
  define rooted where "rooted = (hd p = CHR ''/'')"
  define stack where "stack = foldl (clean_element rooted) [] (split_slash p)"
  have pl: "plain_elements (rev stack)"
    using foldl_clean_element_plain[of "[]" "split_slash p" rooted] split_slash_no_slash[of _ p]
    by (auto simp: stack_def plain_elements_def)
  have c: "path_Clean p = (let out = (if rooted then ''/'' else []) @ join_slash (rev stack)
                           in if out = [] then ''.'' else out)"
    using False by (simp add: path_Clean_def rooted_def stack_def Let_def)
  show ?thesis
  proof (cases "stack = []")
    case True
    then show ?thesis using c by (auto simp: Let_def)
  next
    case ne: False
    then have "join_slash (rev stack) \<noteq> [] \<and> last (join_slash (rev stack)) \<noteq> CHR ''/''"
      using pl by (intro join_slash_last) simp_all
    then show ?thesis using c by (auto simp: Let_def)
  qed
qed

lemma parentDirName_one_slash: "\<not> strings_HasSuffix (parentDirName n) ''//''"
proof -
  define d where "d = path_Dir (strings_TrimRight n ''/'')"
  have d: "d = ''/'' \<or> (d \<noteq> [] \<and> last d \<noteq> CHR ''/'')"
    unfolding d_def path_Dir_def by (rule path_Clean_last)
  have p: "parentDirName n = (if d = ''.'' then ''/''
         else if \<not> strings_HasSuffix d ''/'' then d @ ''/'' else d)"
    by (simp add: parentDirName_def d_def Let_def)
  show ?thesis
  proof (cases "d = ''/''")
    case True
    then show ?thesis using p by (simp add: strings_HasSuffix_def)
  next
    case False
    then have nd: "d \<noteq> []" "last d \<noteq> CHR ''/''" using d by auto
    then have ns: "\<not> strings_HasSuffix d ''/''" by (simp add: HasSuffix_slash)
    have "\<not> strings_HasSuffix (d @ ''/'') ''//''"
    proof
      assume "strings_HasSuffix (d @ ''/'') ''//''"
      then obtain t where "d @ ''/'' = t @ ''//''" using HasSuffix_slash2 by blast
      then have "d = t @ ''/''" by simp
      then show False using nd by simp
    qed
    then show ?thesis using p ns by (simp add: strings_HasSuffix_def)
  qed
qed

section \<open>Names with and without a trailing slash\<close>

lemma FindOrCreate_found:
  "map_of fm m = Some i \<Longrightarrow> FindOrCreate (hp, fm) m = (i, hp, fm)"
  by (simp add: FindOrCreate_def)

lemma FindOrCreate_created:
  assumes "map_of fm m = None"
  shows "\<exists>fm1. FindOrCreate (hp, fm) m
            = (length hp,
               hp @ [\<lparr>fi_name = m, fi_zipFile = None, fi_fileInfos = [], fi_tempPath = []\<rparr>], fm1)
          \<and> map_of fm1 = (map_of fm)(m \<mapsto> length hp, strings_TrimRight m ''/'' \<mapsto> length hp)"
  using assms by (auto simp: FindOrCreate_def Let_def update_conv')

lemma alias_ok_step:
  assumes a: "alias_ok m" and n: "m k = None" and s: "\<not> strings_HasSuffix k ''//''"
  shows "alias_ok (m(k \<mapsto> v, strings_TrimRight k ''/'' \<mapsto> v))"
proof (cases "strings_HasSuffix k ''/''")
  case False
  then have t: "strings_TrimRight k ''/'' = k" by (rule TrimRight_id)
  show ?thesis unfolding alias_ok_def t
  proof (intro allI impI)
    fix s assume ns: "\<not> strings_HasSuffix s ''/''" and d: "(m(k \<mapsto> v, k \<mapsto> v)) (s @ ''/'') \<noteq> None"
    have ne: "s @ ''/'' \<noteq> k" using False by (auto simp: HasSuffix_slash)
    then have "m (s @ ''/'') \<noteq> None" using d by simp
    then have e: "m s = m (s @ ''/'')" "m s \<noteq> None" using a ns by (auto simp: alias_ok_def)
    then have "s \<noteq> k" using n by auto
    then show "(m(k \<mapsto> v, k \<mapsto> v)) s = (m(k \<mapsto> v, k \<mapsto> v)) (s @ ''/'')"
      using ne e by simp
  qed
next
  case True
  then obtain t where k: "k = t @ ''/''" and nt: "\<not> strings_HasSuffix t ''/''"
    using one_slash_form[OF _ s] by blast
  have t: "strings_TrimRight k ''/'' = t" unfolding k using nt by (rule TrimRight_one_slash)
  show ?thesis unfolding alias_ok_def t
  proof (intro allI impI)
    fix s assume ns: "\<not> strings_HasSuffix s ''/''" and d: "(m(k \<mapsto> v, t \<mapsto> v)) (s @ ''/'') \<noteq> None"
    show "(m(k \<mapsto> v, t \<mapsto> v)) s = (m(k \<mapsto> v, t \<mapsto> v)) (s @ ''/'')"
    proof (cases "s = t")
      case True
      then show ?thesis by (simp add: k)
    next
      case False
      then have ne: "s @ ''/'' \<noteq> k" by (simp add: k)
      have ne2: "s @ ''/'' \<noteq> t" using nt by (auto simp: HasSuffix_slash)
      have "m (s @ ''/'') \<noteq> None" using d ne ne2 by simp
      then have e: "m s = m (s @ ''/'')" using a ns by (auto simp: alias_ok_def)
      have "s \<noteq> k" using ns True by auto
      then show ?thesis using False ne ne2 e by simp
    qed
  qed
qed

lemma registered_step:
  assumes "registered names m"
  shows "registered (names @ [k]) (m(k \<mapsto> v, strings_TrimRight k ''/'' \<mapsto> v))"
  using assms by (auto simp: registered_def)

lemma bare_first_step:
  assumes b: "bare_first names" and r: "registered names m" and n: "m k = None"
  shows "bare_first (names @ [k])"
  unfolding bare_first_def
proof (intro allI impI)
  fix i j
  assume i: "i < length (names @ [k])" and j: "j < length (names @ [k])"
    and t: "strings_TrimRight ((names @ [k]) ! j) ''/'' = (names @ [k]) ! i"
    and d: "(names @ [k]) ! j \<noteq> (names @ [k]) ! i"
  show "i < j"
  proof (cases "j < length names")
    case jo: True
    show ?thesis
    proof (cases "i < length names")
      case True
      then show ?thesis using b jo t d by (simp add: bare_first_def nth_append)
    next
      case False
      then have "(names @ [k]) ! i = k" using i by (simp add: nth_append)
      then have "strings_TrimRight (names ! j) ''/'' = k" using t jo by (simp add: nth_append)
      moreover have "m (strings_TrimRight (names ! j) ''/'') \<noteq> None"
        using r jo by (auto simp: registered_def)
      ultimately show ?thesis using n by simp
    qed
  next
    case False
    then have jl: "j = length names" using j by simp
    then have "i \<noteq> j" using d by auto
    then show ?thesis using i jl by simp
  qed
qed

lemma distinct_step:
  assumes "distinct names" and "registered names m" and "m k = None"
  shows "distinct (names @ [k])"
  using assms by (auto simp: registered_def)

lemma FindOrCreate_inv:
  assumes "index_inv (hp, fm)" and "\<not> strings_HasSuffix n ''//''"
    and "FindOrCreate (hp, fm) n = (i, hp1, fm1)"
  shows "index_inv (hp1, fm1)"
proof (cases "map_of fm n")
  case (Some j)
  then show ?thesis using assms(1,3) by (simp add: FindOrCreate_found)
next
  case None
  obtain fm' where f: "FindOrCreate (hp, fm) n
            = (length hp,
               hp @ [\<lparr>fi_name = n, fi_zipFile = None, fi_fileInfos = [], fi_tempPath = []\<rparr>], fm')"
    and m: "map_of fm' = (map_of fm)(n \<mapsto> length hp, strings_TrimRight n ''/'' \<mapsto> length hp)"
    using FindOrCreate_created[OF None] by blast
  have e: "hp1 = hp @ [\<lparr>fi_name = n, fi_zipFile = None, fi_fileInfos = [], fi_tempPath = []\<rparr>]"
    "fm1 = fm'"
    using f assms(3) by simp_all
  have a: "alias_ok (map_of fm)" and r: "registered (map fi_name hp) (map_of fm)"
    and b: "bare_first (map fi_name hp)" and d: "distinct (map fi_name hp)"
    using assms(1) by (simp_all add: index_inv_def)
  show ?thesis
    unfolding index_inv_def e
    using alias_ok_step[OF a None assms(2)] registered_step[OF r] bare_first_step[OF b r None]
      distinct_step[OF d r None]
    by (simp add: m)
qed

lemma names_list_update:
  "fi_name x = fi_name (hp ! i) \<Longrightarrow> map fi_name (hp[i := x]) = map fi_name hp"
  by (cases "i < length hp") (simp_all add: map_update list_update_beyond list_update_same_conv)

lemma index_inv_names:
  "map fi_name hp1 = map fi_name hp \<Longrightarrow> index_inv (hp, fm) \<Longrightarrow> index_inv (hp1, fm)"
  by (simp add: index_inv_def)

lemma New_entry_inv:
  assumes "index_inv st" and "\<not> strings_HasSuffix (Name zf) ''//''"
  shows "index_inv (New_entry st zf)"
proof -
  obtain hp fm where st: "st = (hp, fm)" by (cases st)
  obtain fi hp1 fm1 where a: "FindOrCreate (hp, fm) (Name zf) = (fi, hp1, fm1)"
    by (metis prod_cases3)
  define hp2 where "hp2 = hp1[fi := (hp1 ! fi)\<lparr>fi_zipFile := Some zf\<rparr>]"
  obtain d hp3 fm3 where b: "FindOrCreate (hp2, fm1) (parentDirName (Name zf)) = (d, hp3, fm3)"
    by (metis prod_cases3)
  define hp4 where "hp4 = hp3[d := (hp3 ! d)\<lparr>fi_fileInfos := fi_fileInfos (hp3 ! d) @ [fi]\<rparr>]"
  have i1: "index_inv (hp1, fm1)"
    using FindOrCreate_inv[OF assms(1)[unfolded st] assms(2) a] .
  have "map fi_name hp2 = map fi_name hp1" unfolding hp2_def by (rule names_list_update) simp
  then have i2: "index_inv (hp2, fm1)" using i1 by (rule index_inv_names)
  have i3: "index_inv (hp3, fm3)"
    using FindOrCreate_inv[OF i2 parentDirName_one_slash b] .
  have "map fi_name hp4 = map fi_name hp3" unfolding hp4_def by (rule names_list_update) simp
  then have i4: "index_inv (hp4, fm3)" using i3 by (rule index_inv_names)
  have "New_entry st zf = (hp4, fm3)"
    by (simp add: New_entry_def st a FindOrCreateParent_def hp2_def[symmetric] b hp4_def)
  then show ?thesis using i4 by simp
qed

lemma foldl_New_entry_inv:
  "index_inv st \<Longrightarrow> (\<forall>zf \<in> set zfs. \<not> strings_HasSuffix (Name zf) ''//'') \<Longrightarrow>
   index_inv (foldl New_entry st zfs)"
  by (induction zfs arbitrary: st) (simp_all add: New_entry_inv)

lemma foldl_New_sort_names: "map fi_name (foldl New_sort hp js) = map fi_name hp"
proof (induction js arbitrary: hp)
  case Nil
  then show ?case by simp
next
  case (Cons j js)
  have "map fi_name (New_sort hp j) = map fi_name hp"
    by (rule nth_equalityI) (simp_all add: New_sort_length New_sort_name)
  then show ?case using Cons.IH[of "New_sort hp j"] by simp
qed

lemma New_index_inv:
  assumes "New (Inr ar) = Inr (fs, hp)"
    and "\<forall>zf \<in> set (ar_File ar). \<not> strings_HasSuffix (Name zf) ''//''"
  shows "index_inv (hp, fs_fileInfos fs)"
proof -
  obtain hp0 fm where f: "foldl New_entry ([], []) (ar_File ar) = (hp0, fm)"
    by (cases "foldl New_entry ([], []) (ar_File ar)")
  have fs: "fs_fileInfos fs = fm" and hp: "hp = foldl New_sort hp0 (map snd fm)"
    using assms(1) by (auto simp: New_def f)
  have "index_inv ([], [])"
    by (simp add: index_inv_def alias_ok_def registered_def bare_first_def)
  then have "index_inv (hp0, fm)"
    using foldl_New_entry_inv[OF _ assms(2)] f by metis
  then show ?thesis
    unfolding fs hp by (rule index_inv_names[OF foldl_New_sort_names])
qed

lemma parentDirName_a: "parentDirName ''a'' = ''/''" "parentDirName ''a/'' = ''/''"
  by (simp_all add: parentDirName_def strings_TrimRight_def path_Dir_def path_Clean_examples
      strings_HasSuffix_def)

lemma path_Base_a: "path_Base ''a'' = ''a''" "path_Base ''a/'' = ''a''"
  by (simp_all add: path_Base_def strings_TrimRight_def)

lemma New_archive_a: "New (Inr archive_a) = Inr (fs_a, heap_a)"
  by (simp add: New_def archive_a_def New_entry_def FindOrCreate_def FindOrCreateParent_def
      parentDirName_a e_a_def e_a_dir_def strings_TrimRight_def
      New_sort_def sort_Sort_def fileInfo_Name_def path_Base_a
      fs_a_def heap_a_def Let_def)

lemma New_archive_b: "New (Inr archive_b) = Inr (fs_b, heap_b)"
  by (simp add: New_def archive_b_def New_entry_def FindOrCreate_def FindOrCreateParent_def
      parentDirName_a e_a_def e_a_dir_def strings_TrimRight_def
      New_sort_def sort_Sort_def fileInfo_Name_def path_Base_a
      fs_b_def heap_b_def Let_def)

text \<open>
  C8, as stated: in any order of the entries, a name that occurs as \<^verbatim>\<open>name\<close> and as \<^verbatim>\<open>name/\<close>
  has one node. With the file \<^verbatim>\<open>a\<close> before the directory \<^verbatim>\<open>a/\<close> the two map entries do point
  at one node, the one made for \<^verbatim>\<open>a/\<close>, but the node made for \<^verbatim>\<open>a\<close> is still there: two
  nodes carry the name, and both are children of the root.
\<close>

theorem one_node_per_name_counterexample:
  "New (Inr archive_a) = Inr (fs_a, heap_a)
   \<and> map Name (ar_File archive_a) = [''a'', ''a/'']
   \<and> map_of (fs_fileInfos fs_a) ''a'' = Some 2
   \<and> map_of (fs_fileInfos fs_a) ''a/'' = Some 2
   \<and> map fi_name heap_a = [''a'', ''/'', ''a/'']
   \<and> length (nodes_named heap_a ''a'') = 2
   \<and> set (fi_fileInfos (heap_a ! 1)) = {0, 2}"
  using New_archive_a
  by (simp add: archive_a_def e_a_def e_a_dir_def fs_a_def heap_a_def nodes_named_def
      strings_TrimRight_def)

text \<open>
  C8, amended. For every entry list whose names end in at most one slash, after the
  build: whenever the map has an entry for \<^verbatim>\<open>name/\<close>, the entries for \<^verbatim>\<open>name\<close> and \<^verbatim>\<open>name/\<close>
  reference the same node; no two nodes have the same name; and a node whose name is
  another node's name without its trailing slashes was created before that node, so
  that a second node for a name arises only when \<^verbatim>\<open>name\<close> is processed before \<^verbatim>\<open>name/\<close> is
  first looked up.
\<close>

theorem names_with_and_without_slash:
  assumes "New (Inr ar) = Inr (fs, hp)"
    and "\<forall>zf \<in> set (ar_File ar). \<not> strings_HasSuffix (Name zf) ''//''"
  shows "(\<forall>s i. \<not> strings_HasSuffix s ''/'' \<longrightarrow> map_of (fs_fileInfos fs) (s @ ''/'') = Some i
                \<longrightarrow> map_of (fs_fileInfos fs) s = Some i)
       \<and> distinct (map fi_name hp)
       \<and> (\<forall>i j. i < length hp \<longrightarrow> j < length hp
                \<longrightarrow> strings_TrimRight (fi_name (hp ! j)) ''/'' = fi_name (hp ! i)
                \<longrightarrow> fi_name (hp ! j) \<noteq> fi_name (hp ! i) \<longrightarrow> i < j)"
proof -
  have inv: "index_inv (hp, fs_fileInfos fs)"
    using assms by (rule New_index_inv)
  have a: "\<forall>s i. \<not> strings_HasSuffix s ''/'' \<longrightarrow> map_of (fs_fileInfos fs) (s @ ''/'') = Some i
                \<longrightarrow> map_of (fs_fileInfos fs) s = Some i"
    using inv by (auto simp: index_inv_def alias_ok_def)
  have d: "distinct (map fi_name hp)"
    using inv by (simp add: index_inv_def)
  have "bare_first (map fi_name hp)" using inv by (simp add: index_inv_def)
  then have b: "\<forall>i j. i < length hp \<longrightarrow> j < length hp
                \<longrightarrow> strings_TrimRight (fi_name (hp ! j)) ''/'' = fi_name (hp ! i)
                \<longrightarrow> fi_name (hp ! j) \<noteq> fi_name (hp ! i) \<longrightarrow> i < j"
    unfolding bare_first_def by (intro allI impI) simp
  show ?thesis by (intro conjI) (rule a, rule d, rule b)
qed

theorem names_with_and_without_slash_witness:
  "New (Inr archive_b) = Inr (fs_b, heap_b)
   \<and> map Name (ar_File archive_b) = [''a/'', ''a'']
   \<and> \<not> strings_HasSuffix ''a/'' ''//'' \<and> \<not> strings_HasSuffix ''a'' ''//''
   \<and> \<not> strings_HasSuffix ''a'' ''/''
   \<and> map_of (fs_fileInfos fs_b) ''a/'' = Some 0
   \<and> map_of (fs_fileInfos fs_b) ''a'' = Some 0
   \<and> distinct (map fi_name heap_b)
   \<and> length (nodes_named heap_b ''a'') = 1"
proof -
  have n: "\<forall>zf \<in> set (ar_File archive_b). \<not> strings_HasSuffix (Name zf) ''//''"
    by (simp add: archive_b_def e_a_def e_a_dir_def strings_HasSuffix_def)
  have s: "\<not> strings_HasSuffix ''a'' ''/''" by (simp add: strings_HasSuffix_def)
  have m: "map_of (fs_fileInfos fs_b) (''a'' @ ''/'') = Some 0" by (simp add: fs_b_def)
  note t = names_with_and_without_slash [OF New_archive_b n]
  have "map_of (fs_fileInfos fs_b) ''a'' = Some 0"
    using t s m by blast
  moreover have "distinct (map fi_name heap_b)" using t by blast
  ultimately show ?thesis
    using New_archive_b s m
    by (simp add: archive_b_def e_a_def e_a_dir_def strings_HasSuffix_def nodes_named_def
        heap_b_def strings_TrimRight_def)
qed


end
